theory Spec2Isabelle
  imports Main
begin

section \<open>The in-memory store of SecureThoughtVault (server/storage.ts)\<close>

text \<open>
  The class \<open>MemStorage\<close> keeps five JavaScript \<open>Map\<close>s from numeric ids to records and
  five id counters. The model is a record of five insertion-ordered association lists
  and five integers; every method takes the store and returns its result together with
  the store it leaves behind. The methods are \<open>async\<close> but never suspend on anything
  outside the store, so each call is modelled as one atomic step.

  JavaScript numbers are modelled as \<open>int\<close>: ids and counters are small integers, for
  which the arithmetic of the source (\<open>counter++\<close>) is exact. A field that may be
  \<open>null\<close> or \<open>undefined\<close> is an \<open>option\<close>, with \<open>None\<close> for both: the source only
  ever tests such a field with \<open>||\<close>, compares it with \<open>===\<close> against a number, or
  passes it to \<open>Map.get\<close>, and none of these tells \<open>null\<close> from \<open>undefined\<close>.
  A \<open>Date\<close> is its time value in milliseconds; \<open>new Date()\<close> is a parameter \<open>now\<close>.
\<close>

subsection \<open>JavaScript \<open>Map\<close> with numeric keys\<close>

type_synonym 'v jsmap = "(int \<times> 'v) list"

type_synonym date = int

definition Map_get :: "'v jsmap \<Rightarrow> int \<Rightarrow> 'v option" where
  "Map_get m k = map_of m k"

text \<open>\<open>Map.set\<close> overwrites the value of a key in place and appends a new key at the end.\<close>

fun Map_set :: "int \<Rightarrow> 'v \<Rightarrow> 'v jsmap \<Rightarrow> 'v jsmap" where
  "Map_set k v [] = [(k, v)]"
| "Map_set k v (p # m) = (if fst p = k then (k, v) # m else p # Map_set k v m)"

text \<open>\<open>Map.delete\<close> answers whether the key was there and removes it.\<close>

definition Map_delete :: "int \<Rightarrow> 'v jsmap \<Rightarrow> bool \<times> 'v jsmap" where
  "Map_delete k m = (map_of m k \<noteq> None, filter (\<lambda>p. fst p \<noteq> k) m)"

definition Map_values :: "'v jsmap \<Rightarrow> 'v list" where
  "Map_values m = map snd m"

text \<open>\<open>Array.prototype.find\<close>: the first element that satisfies the predicate.\<close>

definition Array_find :: "('a \<Rightarrow> bool) \<Rightarrow> 'a list \<Rightarrow> 'a option" where
  "Array_find P xs = List.find P xs"

subsection \<open>The operator \<open>||\<close> on nullable strings and numbers\<close>

text \<open>\<open>x || null\<close> for a string: \<open>undefined\<close>, \<open>null\<close> and the empty string are falsy.\<close>

definition str_or_null :: "string option \<Rightarrow> string option" where
  "str_or_null x = (case x of None \<Rightarrow> None | Some s \<Rightarrow> if s = [] then None else Some s)"

text \<open>\<open>x || d\<close> for a string with a default.\<close>

definition str_or :: "string option \<Rightarrow> string \<Rightarrow> string" where
  "str_or x d = (case x of None \<Rightarrow> d | Some s \<Rightarrow> if s = [] then d else s)"

text \<open>\<open>x || null\<close> and \<open>x || d\<close> for a number: \<open>undefined\<close>, \<open>null\<close> and 0 are falsy.\<close>

definition num_or_null :: "int option \<Rightarrow> int option" where
  "num_or_null x = (case x of None \<Rightarrow> None | Some n \<Rightarrow> if n = 0 then None else Some n)"

definition num_or :: "int option \<Rightarrow> int \<Rightarrow> int" where
  "num_or x d = (case x of None \<Rightarrow> d | Some n \<Rightarrow> if n = 0 then d else n)"

text \<open>One property of an object spread \<open>{...old, ...patch}\<close>: the patch wins where it
  has the property.\<close>

definition spread :: "'a \<Rightarrow> 'a option \<Rightarrow> 'a" where
  "spread old p = (case p of None \<Rightarrow> old | Some v \<Rightarrow> v)"

subsection \<open>Record types (shared/schema.ts)\<close>

record user =
  user_id :: int
  user_username :: string
  user_password :: string
  user_displayName :: "string option"
  user_email :: "string option"

record insertUser =
  iu_username :: string
  iu_password :: string
  iu_displayName :: "string option"
  iu_email :: "string option"

record category =
  category_id :: int
  category_userId :: "int option"
  category_name :: string

record insertCategory =
  ic_userId :: "int option"
  ic_name :: string

record entry =
  entry_id :: int
  entry_userId :: "int option"
  entry_title :: string
  entry_content :: "string option"
  entry_mediaUrl :: "string option"
  entry_type :: string
  entry_visibility :: "string option"
  entry_categoryId :: "int option"
  entry_metadata :: "string option"
  entry_createdAt :: "date option"

record insertEntry =
  ie_userId :: "int option"
  ie_title :: string
  ie_content :: "string option"
  ie_mediaUrl :: "string option"
  ie_type :: string
  ie_visibility :: "string option"
  ie_categoryId :: "int option"
  ie_metadata :: "string option"

text \<open>\<open>Partial<Entry>\<close>: every property may be missing (\<open>None\<close>); a nullable property that
  is there carries its own \<open>option\<close>. The patches come from JSON request bodies
  (server/routes.ts), which cannot carry a property whose value is \<open>undefined\<close>, so a
  property that is there has a value of the field's type.\<close>

record partialEntry =
  pe_id :: "int option"
  pe_userId :: "int option option"
  pe_title :: "string option"
  pe_content :: "string option option"
  pe_mediaUrl :: "string option option"
  pe_type :: "string option"
  pe_visibility :: "string option option"
  pe_categoryId :: "int option option"
  pe_metadata :: "string option option"
  pe_createdAt :: "date option option"

record contact =
  contact_id :: int
  contact_userId :: "int option"
  contact_name :: string
  contact_phoneNumber :: "string option"
  contact_email :: "string option"

record insertContact =
  ict_userId :: "int option"
  ict_name :: string
  ict_phoneNumber :: "string option"
  ict_email :: "string option"

record partialContact =
  pc_id :: "int option"
  pc_userId :: "int option option"
  pc_name :: "string option"
  pc_phoneNumber :: "string option option"
  pc_email :: "string option option"

record schedule =
  schedule_id :: int
  schedule_entryId :: "int option"
  schedule_contactId :: "int option"
  schedule_deliveryDate :: date
  schedule_status :: "string option"
  schedule_reminderEnabled :: "bool option"
  schedule_createdAt :: "date option"

record insertSchedule =
  is_entryId :: "int option"
  is_contactId :: "int option"
  is_deliveryDate :: date
  is_reminderEnabled :: "bool option"

record partialSchedule =
  ps_id :: "int option"
  ps_entryId :: "int option option"
  ps_contactId :: "int option option"
  ps_deliveryDate :: "date option"
  ps_status :: "string option option"
  ps_reminderEnabled :: "bool option option"
  ps_createdAt :: "date option option"

text \<open>\<open>EntryWithSchedule = Entry & { schedule?: Schedule & { contact?: Contact } }\<close>:
  both view types extend the stored record by one optional field.\<close>

record scheduleWithContact = schedule +
  contact :: "contact option"

record entryWithSchedule = entry +
  schedule :: "scheduleWithContact option"

subsection \<open>The store\<close>

record memStorage =
  users :: "user jsmap"
  categories :: "category jsmap"
  entries :: "entry jsmap"
  contacts :: "contact jsmap"
  schedules :: "schedule jsmap"
  userIdCounter :: int
  categoryIdCounter :: int
  entryIdCounter :: int
  contactIdCounter :: int
  scheduleIdCounter :: int

subsection \<open>User methods\<close>

definition getUser :: "memStorage \<Rightarrow> int \<Rightarrow> user option" where
  "getUser S i = Map_get (users S) i"

definition getUserByUsername :: "memStorage \<Rightarrow> string \<Rightarrow> user option" where
  "getUserByUsername S name =
     Array_find (\<lambda>u. user_username u = name) (Map_values (users S))"

definition createUser :: "insertUser \<Rightarrow> memStorage \<Rightarrow> user \<times> memStorage" where
  "createUser ins S =
     (let i = userIdCounter S;
          u = \<lparr> user_id = i,
                user_username = iu_username ins,
                user_password = iu_password ins,
                user_displayName = str_or_null (iu_displayName ins),
                user_email = str_or_null (iu_email ins) \<rparr>
      in (u, S\<lparr> userIdCounter := i + 1, users := Map_set i u (users S) \<rparr>))"

subsection \<open>Category methods\<close>

definition getCategories :: "memStorage \<Rightarrow> int \<Rightarrow> category list" where
  "getCategories S uid =
     filter (\<lambda>c. category_userId c = Some uid) (Map_values (categories S))"

definition getCategoryById :: "memStorage \<Rightarrow> int \<Rightarrow> category option" where
  "getCategoryById S i = Map_get (categories S) i"

definition createCategory :: "insertCategory \<Rightarrow> memStorage \<Rightarrow> category \<times> memStorage" where
  "createCategory ins S =
     (let i = categoryIdCounter S;
          c = \<lparr> category_id = i, category_userId = ic_userId ins, category_name = ic_name ins \<rparr>
      in (c, S\<lparr> categoryIdCounter := i + 1, categories := Map_set i c (categories S) \<rparr>))"

definition deleteCategory :: "int \<Rightarrow> memStorage \<Rightarrow> bool \<times> memStorage" where
  "deleteCategory i S =
     (let (existed, m) = Map_delete i (categories S) in (existed, S\<lparr> categories := m \<rparr>))"

subsection \<open>Entry methods\<close>

definition getEntries :: "memStorage \<Rightarrow> int \<Rightarrow> entry list" where
  "getEntries S uid = filter (\<lambda>e. entry_userId e = Some uid) (Map_values (entries S))"

definition getEntryById :: "memStorage \<Rightarrow> int \<Rightarrow> entry option" where
  "getEntryById S i = Map_get (entries S) i"

definition getEntriesByType :: "memStorage \<Rightarrow> int \<Rightarrow> string \<Rightarrow> entry list" where
  "getEntriesByType S uid ty =
     filter (\<lambda>e. entry_userId e = Some uid \<and> entry_type e = ty) (Map_values (entries S))"

definition getEntriesByCategory :: "memStorage \<Rightarrow> int \<Rightarrow> int \<Rightarrow> entry list" where
  "getEntriesByCategory S uid cid =
     filter (\<lambda>e. entry_userId e = Some uid \<and> entry_categoryId e = Some cid)
       (Map_values (entries S))"

definition createEntry :: "date \<Rightarrow> insertEntry \<Rightarrow> memStorage \<Rightarrow> entry \<times> memStorage" where
  "createEntry now ins S =
     (let i = entryIdCounter S;
          e = \<lparr> entry_id = i,
                entry_userId = Some (num_or (ie_userId ins) 1),
                entry_title = ie_title ins,
                entry_content = str_or_null (ie_content ins),
                entry_mediaUrl = str_or_null (ie_mediaUrl ins),
                entry_type = ie_type ins,
                entry_visibility = Some (str_or (ie_visibility ins) ''private''),
                entry_categoryId = num_or_null (ie_categoryId ins),
                entry_metadata = str_or_null (ie_metadata ins),
                entry_createdAt = Some now \<rparr>
      in (e, S\<lparr> entryIdCounter := i + 1, entries := Map_set i e (entries S) \<rparr>))"

text \<open>\<open>{ ...entry, ...updatedEntry }\<close>, property by property.\<close>

definition mergeEntry :: "entry \<Rightarrow> partialEntry \<Rightarrow> entry" where
  "mergeEntry e p =
     \<lparr> entry_id = spread (entry_id e) (pe_id p),
       entry_userId = spread (entry_userId e) (pe_userId p),
       entry_title = spread (entry_title e) (pe_title p),
       entry_content = spread (entry_content e) (pe_content p),
       entry_mediaUrl = spread (entry_mediaUrl e) (pe_mediaUrl p),
       entry_type = spread (entry_type e) (pe_type p),
       entry_visibility = spread (entry_visibility e) (pe_visibility p),
       entry_categoryId = spread (entry_categoryId e) (pe_categoryId p),
       entry_metadata = spread (entry_metadata e) (pe_metadata p),
       entry_createdAt = spread (entry_createdAt e) (pe_createdAt p) \<rparr>"

definition updateEntry :: "int \<Rightarrow> partialEntry \<Rightarrow> memStorage \<Rightarrow> entry option \<times> memStorage" where
  "updateEntry i p S =
     (case Map_get (entries S) i of
        None \<Rightarrow> (None, S)
      | Some e \<Rightarrow>
          (let updated = mergeEntry e p
           in (Some updated, S\<lparr> entries := Map_set i updated (entries S) \<rparr>)))"

text \<open>The empty patch, and the patch \<open>{ visibility: v }\<close> that the schedule methods send.\<close>

definition noEntryPatch :: partialEntry where
  "noEntryPatch =
     \<lparr> pe_id = None, pe_userId = None, pe_title = None, pe_content = None,
       pe_mediaUrl = None, pe_type = None, pe_visibility = None, pe_categoryId = None,
       pe_metadata = None, pe_createdAt = None \<rparr>"

definition visibilityPatch :: "string \<Rightarrow> partialEntry" where
  "visibilityPatch v = noEntryPatch\<lparr> pe_visibility := Some (Some v) \<rparr>"

text \<open>\<open>deleteEntry\<close> first collects the schedules whose \<open>entryId\<close> is the id, deletes
  each of them under its own \<open>id\<close> property, and then deletes the entry.\<close>

definition deleteEntry :: "int \<Rightarrow> memStorage \<Rightarrow> bool \<times> memStorage" where
  "deleteEntry i S =
     (let found = filter (\<lambda>s. schedule_entryId s = Some i) (Map_values (schedules S));
          sm = fold (\<lambda>s m. snd (Map_delete (schedule_id s) m)) found (schedules S);
          (existed, em) = Map_delete i (entries S)
      in (existed, S\<lparr> schedules := sm, entries := em \<rparr>))"

subsection \<open>Contact methods\<close>

definition getContacts :: "memStorage \<Rightarrow> int \<Rightarrow> contact list" where
  "getContacts S uid = filter (\<lambda>c. contact_userId c = Some uid) (Map_values (contacts S))"

definition getContactById :: "memStorage \<Rightarrow> int \<Rightarrow> contact option" where
  "getContactById S i = Map_get (contacts S) i"

definition createContact :: "insertContact \<Rightarrow> memStorage \<Rightarrow> contact \<times> memStorage" where
  "createContact ins S =
     (let i = contactIdCounter S;
          c = \<lparr> contact_id = i, contact_userId = ict_userId ins, contact_name = ict_name ins,
                contact_phoneNumber = ict_phoneNumber ins, contact_email = ict_email ins \<rparr>
      in (c, S\<lparr> contactIdCounter := i + 1, contacts := Map_set i c (contacts S) \<rparr>))"

definition mergeContact :: "contact \<Rightarrow> partialContact \<Rightarrow> contact" where
  "mergeContact c p =
     \<lparr> contact_id = spread (contact_id c) (pc_id p),
       contact_userId = spread (contact_userId c) (pc_userId p),
       contact_name = spread (contact_name c) (pc_name p),
       contact_phoneNumber = spread (contact_phoneNumber c) (pc_phoneNumber p),
       contact_email = spread (contact_email c) (pc_email p) \<rparr>"

definition updateContact :: "int \<Rightarrow> partialContact \<Rightarrow> memStorage \<Rightarrow> contact option \<times> memStorage" where
  "updateContact i p S =
     (case Map_get (contacts S) i of
        None \<Rightarrow> (None, S)
      | Some c \<Rightarrow>
          (let updated = mergeContact c p
           in (Some updated, S\<lparr> contacts := Map_set i updated (contacts S) \<rparr>)))"

definition deleteContact :: "int \<Rightarrow> memStorage \<Rightarrow> bool \<times> memStorage" where
  "deleteContact i S =
     (let (existed, m) = Map_delete i (contacts S) in (existed, S\<lparr> contacts := m \<rparr>))"

subsection \<open>Schedule methods\<close>

definition getSchedules :: "memStorage \<Rightarrow> int \<Rightarrow> schedule list" where
  "getSchedules S uid =
     (let entryIds = map entry_id (getEntries S uid)
      in filter (\<lambda>s. case schedule_entryId s of None \<Rightarrow> False | Some e \<Rightarrow> e \<in> set entryIds)
           (Map_values (schedules S)))"

definition getScheduleById :: "memStorage \<Rightarrow> int \<Rightarrow> schedule option" where
  "getScheduleById S i = Map_get (schedules S) i"

definition getSchedulesByEntryId :: "memStorage \<Rightarrow> int \<Rightarrow> schedule option" where
  "getSchedulesByEntryId S eid =
     Array_find (\<lambda>s. schedule_entryId s = Some eid) (Map_values (schedules S))"

text \<open>\<open>createSchedule\<close> stores the schedule, then looks the entry up under
  \<open>insertSchedule.entryId\<close> (a missing or null id finds nothing, all keys being numbers)
  and, when there is one, patches the entry stored under that entry's \<open>id\<close> property.\<close>

definition createSchedule :: "date \<Rightarrow> insertSchedule \<Rightarrow> memStorage \<Rightarrow> schedule \<times> memStorage" where
  "createSchedule now ins S =
     (let i = scheduleIdCounter S;
          s = \<lparr> schedule_id = i,
                schedule_entryId = is_entryId ins,
                schedule_contactId = is_contactId ins,
                schedule_deliveryDate = is_deliveryDate ins,
                schedule_status = Some ''pending'',
                schedule_reminderEnabled = is_reminderEnabled ins,
                schedule_createdAt = Some now \<rparr>;
          S1 = S\<lparr> scheduleIdCounter := i + 1, schedules := Map_set i s (schedules S) \<rparr>;
          found = (case is_entryId ins of None \<Rightarrow> None | Some eid \<Rightarrow> getEntryById S1 eid)
      in case found of
           None \<Rightarrow> (s, S1)
         | Some e \<Rightarrow> (s, snd (updateEntry (entry_id e) (visibilityPatch ''scheduled'') S1)))"

definition mergeSchedule :: "schedule \<Rightarrow> partialSchedule \<Rightarrow> schedule" where
  "mergeSchedule s p =
     \<lparr> schedule_id = spread (schedule_id s) (ps_id p),
       schedule_entryId = spread (schedule_entryId s) (ps_entryId p),
       schedule_contactId = spread (schedule_contactId s) (ps_contactId p),
       schedule_deliveryDate = spread (schedule_deliveryDate s) (ps_deliveryDate p),
       schedule_status = spread (schedule_status s) (ps_status p),
       schedule_reminderEnabled = spread (schedule_reminderEnabled s) (ps_reminderEnabled p),
       schedule_createdAt = spread (schedule_createdAt s) (ps_createdAt p) \<rparr>"

definition updateSchedule ::
  "int \<Rightarrow> partialSchedule \<Rightarrow> memStorage \<Rightarrow> schedule option \<times> memStorage" where
  "updateSchedule i p S =
     (case Map_get (schedules S) i of
        None \<Rightarrow> (None, S)
      | Some s \<Rightarrow>
          (let updated = mergeSchedule s p
           in (Some updated, S\<lparr> schedules := Map_set i updated (schedules S) \<rparr>)))"

definition deleteSchedule :: "int \<Rightarrow> memStorage \<Rightarrow> bool \<times> memStorage" where
  "deleteSchedule i S =
     (let S1 =
            (case Map_get (schedules S) i of
               None \<Rightarrow> S
             | Some s \<Rightarrow>
                 (case (case schedule_entryId s of None \<Rightarrow> None
                        | Some eid \<Rightarrow> getEntryById S eid) of
                    None \<Rightarrow> S
                  | Some e \<Rightarrow> snd (updateEntry (entry_id e) (visibilityPatch ''private'') S)));
          (existed, m) = Map_delete i (schedules S1)
      in (existed, S1\<lparr> schedules := m \<rparr>))"

subsection \<open>Combined queries\<close>

text \<open>The loop of \<open>getEntriesWithSchedules\<close> pushes one view record per entry; its body
  is \<open>viewOf\<close>, and the loop is a \<open>map\<close> over the entries.\<close>

definition viewOf :: "memStorage \<Rightarrow> entry \<Rightarrow> entryWithSchedule" where
  "viewOf S e =
     (let sch = getSchedulesByEntryId S (entry_id e);
          con = (case sch of
                   None \<Rightarrow> None
                 | Some s \<Rightarrow> (case schedule_contactId s of None \<Rightarrow> None
                             | Some cid \<Rightarrow> getContactById S cid))
      in entry.extend e
           (entryWithSchedule.fields
              (case sch of
                 None \<Rightarrow> None
               | Some s \<Rightarrow> Some (schedule.extend s (scheduleWithContact.fields con)))))"

definition getEntriesWithSchedules :: "memStorage \<Rightarrow> int \<Rightarrow> entryWithSchedule list" where
  "getEntriesWithSchedules S uid = map (viewOf S) (getEntries S uid)"

definition getScheduledEntries :: "memStorage \<Rightarrow> int \<Rightarrow> entryWithSchedule list" where
  "getScheduledEntries S uid =
     filter (\<lambda>r. schedule r \<noteq> None) (getEntriesWithSchedules S uid)"

subsection \<open>The constructor\<close>

definition emptyStorage :: memStorage where
  "emptyStorage =
     \<lparr> users = [], categories = [], entries = [], contacts = [], schedules = [],
       userIdCounter = 1, categoryIdCounter = 1, entryIdCounter = 1,
       contactIdCounter = 1, scheduleIdCounter = 1 \<rparr>"

definition newMemStorage :: memStorage where
  "newMemStorage =
     (let S1 = snd (createUser
                 \<lparr> iu_username = ''demo'', iu_password = ''password'',
                   iu_displayName = Some ''Demo User'',
                   iu_email = Some ''demo@example.com'' \<rparr> emptyStorage);
          S2 = snd (createCategory \<lparr> ic_userId = Some 1, ic_name = ''Personal'' \<rparr> S1);
          S3 = snd (createCategory \<lparr> ic_userId = Some 1, ic_name = ''Work'' \<rparr> S2);
          S4 = snd (createCategory \<lparr> ic_userId = Some 1, ic_name = ''Ideas'' \<rparr> S3);
          S5 = snd (createContact
                 \<lparr> ict_userId = Some 1, ict_name = ''Myself'', ict_phoneNumber = Some '''',
                   ict_email = Some ''demo@example.com'' \<rparr> S4);
          S6 = snd (createContact
                 \<lparr> ict_userId = Some 1, ict_name = ''Mom'',
                   ict_phoneNumber = Some ''555-123-4567'',
                   ict_email = Some ''mom@example.com'' \<rparr> S5);
          S7 = snd (createContact
                 \<lparr> ict_userId = Some 1, ict_name = ''Partner'',
                   ict_phoneNumber = Some ''555-987-6543'',
                   ict_email = Some ''partner@example.com'' \<rparr> S6)
      in S7)"

subsection \<open>Sequences of calls\<close>

text \<open>A client of the store issues calls one after the other. \<open>perform\<close> is the store
  after one call, \<open>run\<close> the store after a sequence of calls.\<close>

datatype call =
    CreateUser insertUser
  | CreateCategory insertCategory
  | DeleteCategory int
  | CreateEntry date insertEntry
  | UpdateEntry int partialEntry
  | DeleteEntry int
  | CreateContact insertContact
  | UpdateContact int partialContact
  | DeleteContact int
  | CreateSchedule date insertSchedule
  | UpdateSchedule int partialSchedule
  | DeleteSchedule int

fun perform :: "call \<Rightarrow> memStorage \<Rightarrow> memStorage" where
  "perform (CreateUser ins) S = snd (createUser ins S)"
| "perform (CreateCategory ins) S = snd (createCategory ins S)"
| "perform (DeleteCategory i) S = snd (deleteCategory i S)"
| "perform (CreateEntry now ins) S = snd (createEntry now ins S)"
| "perform (UpdateEntry i p) S = snd (updateEntry i p S)"
| "perform (DeleteEntry i) S = snd (deleteEntry i S)"
| "perform (CreateContact ins) S = snd (createContact ins S)"
| "perform (UpdateContact i p) S = snd (updateContact i p S)"
| "perform (DeleteContact i) S = snd (deleteContact i S)"
| "perform (CreateSchedule now ins) S = snd (createSchedule now ins S)"
| "perform (UpdateSchedule i p) S = snd (updateSchedule i p S)"
| "perform (DeleteSchedule i) S = snd (deleteSchedule i S)"

fun run :: "call list \<Rightarrow> memStorage \<Rightarrow> memStorage" where
  "run [] S = S"
| "run (c # cs) S = run cs (perform c S)"

text \<open>The entity types, the id counter of each, and the id of the record that a create
  call returns (the other calls return no new record).\<close>

datatype kind = User | Category | Entry | Contact | Schedule

fun counterOf :: "kind \<Rightarrow> memStorage \<Rightarrow> int" where
  "counterOf User S = userIdCounter S"
| "counterOf Category S = categoryIdCounter S"
| "counterOf Entry S = entryIdCounter S"
| "counterOf Contact S = contactIdCounter S"
| "counterOf Schedule S = scheduleIdCounter S"

fun created :: "call \<Rightarrow> memStorage \<Rightarrow> (kind \<times> int) option" where
  "created (CreateUser ins) S = Some (User, user_id (fst (createUser ins S)))"
| "created (CreateCategory ins) S = Some (Category, category_id (fst (createCategory ins S)))"
| "created (CreateEntry now ins) S = Some (Entry, entry_id (fst (createEntry now ins S)))"
| "created (CreateContact ins) S = Some (Contact, contact_id (fst (createContact ins S)))"
| "created (CreateSchedule now ins) S =
     Some (Schedule, schedule_id (fst (createSchedule now ins S)))"
| "created _ S = None"

fun createdIds :: "kind \<Rightarrow> call list \<Rightarrow> memStorage \<Rightarrow> int list" where
  "createdIds k [] S = []"
| "createdIds k (c # cs) S =
     (case created c S of
        None \<Rightarrow> createdIds k cs (perform c S)
      | Some (k', i) \<Rightarrow>
          if k' = k then i # createdIds k cs (perform c S)
          else createdIds k cs (perform c S))"

subsection \<open>Sample inputs\<close>

definition sampleEntry :: insertEntry where
  "sampleEntry =
     \<lparr> ie_userId = Some 1, ie_title = ''Hi'', ie_content = Some ''hello'',
       ie_mediaUrl = None, ie_type = ''text'', ie_visibility = None,
       ie_categoryId = None, ie_metadata = None \<rparr>"

definition sampleSchedule :: "int \<Rightarrow> insertSchedule" where
  "sampleSchedule eid =
     \<lparr> is_entryId = Some eid, is_contactId = Some 2, is_deliveryDate = 1000,
       is_reminderEnabled = None \<rparr>"

definition noSchedulePatch :: partialSchedule where
  "noSchedulePatch =
     \<lparr> ps_id = None, ps_entryId = None, ps_contactId = None, ps_deliveryDate = None,
       ps_status = None, ps_reminderEnabled = None, ps_createdAt = None \<rparr>"

text \<open>The store after one entry was created and scheduled for contact 2.\<close>

definition scheduledStore :: memStorage where
  "scheduledStore =
     run [CreateEntry 0 sampleEntry, CreateSchedule 5 (sampleSchedule 1)] newMemStorage"

text \<open>The same store after contact 2 was deleted: the schedule keeps its \<open>contactId\<close>.\<close>

definition orphanedStore :: memStorage where
  "orphanedStore = run [DeleteContact 2] scheduledStore"

text \<open>The store after one entry was created, with no schedule yet.\<close>

definition entryStore :: memStorage where
  "entryStore = run [CreateEntry 0 sampleEntry] newMemStorage"

subsection \<open>The five counters at once\<close>

definition counters :: "memStorage \<Rightarrow> int \<times> int \<times> int \<times> int \<times> int" where
  "counters S = (userIdCounter S, categoryIdCounter S, entryIdCounter S,
     contactIdCounter S, scheduleIdCounter S)"

definition pick :: "kind \<Rightarrow> int \<times> int \<times> int \<times> int \<times> int \<Rightarrow> int" where
  "pick k t = (case t of (u, c, e, t, s) \<Rightarrow>
     (case k of User \<Rightarrow> u | Category \<Rightarrow> c | Entry \<Rightarrow> e | Contact \<Rightarrow> t | Schedule \<Rightarrow> s))"

subsection \<open>Visibility and schedules in step\<close>

text \<open>An entry has visibility "scheduled" exactly when some stored schedule names the
  entry's id as its \<open>entryId\<close>.\<close>

definition visibility_sync :: "memStorage \<Rightarrow> bool" where
  "visibility_sync S =
     (\<forall>e \<in> set (Map_values (entries S)).
        (entry_visibility e = Some ''scheduled'') =
        (\<exists>s \<in> set (Map_values (schedules S)). schedule_entryId s = Some (entry_id e)))"

text \<open>Every schedule that names entry \<open>e\<close> is stored under the key that its own \<open>id\<close>
  property names.\<close>

definition keyedFor :: "int \<Rightarrow> memStorage \<Rightarrow> bool" where
  "keyedFor e S =
     (\<forall>p \<in> set (schedules S).
        schedule_entryId (snd p) = Some e \<longrightarrow> schedule_id (snd p) = fst p)"

text \<open>An \<open>entryId\<close> is free for a schedule when it is missing, or names a stored entry
  that no schedule names yet, or names no stored entry and lies below the entry counter
  (an id that will not be handed out any more).\<close>

definition freeEntryId :: "memStorage \<Rightarrow> int option \<Rightarrow> bool" where
  "freeEntryId S x =
     (case x of
        None \<Rightarrow> True
      | Some eid \<Rightarrow>
          (case getEntryById S eid of
             None \<Rightarrow> eid < entryIdCounter S
           | Some e \<Rightarrow> getSchedulesByEntryId S eid = None))"

text \<open>The stored entry that an \<open>entryId\<close> names, if there is one.\<close>

definition entryNamed :: "memStorage \<Rightarrow> int option \<Rightarrow> entry option" where
  "entryNamed S x = (case x of None \<Rightarrow> None | Some eid \<Rightarrow> getEntryById S eid)"

text \<open>
  The store accepts every well-typed call. A call is admissible in a store when it
  leaves the bookkeeping of visibility to \<open>createSchedule\<close> and \<open>deleteSchedule\<close>. The
  flag \<open>both\<close> says which reading is wanted: with \<open>both\<close>, an entry is to be scheduled
  exactly when a schedule names it; without, only every entry that a schedule names
  is to be scheduled.
  \<^item> \<open>createEntry\<close>: with \<open>both\<close>, it does not ask for visibility "scheduled".
  \<^item> \<open>updateEntry\<close> of a stored entry: a patch of \<open>id\<close> repeats the entry's id; a patch
    of \<open>visibility\<close> is "scheduled" when a schedule names the entry and, with \<open>both\<close>,
    only then.
  \<^item> \<open>createSchedule\<close>: its \<open>entryId\<close> is free.
  \<^item> \<open>updateSchedule\<close> of a stored schedule: with \<open>both\<close>, a patch of \<open>id\<close> repeats the
    schedule's id; a patch of \<open>entryId\<close> repeats the schedule's \<open>entryId\<close>, or moves
    the schedule to a free \<open>entryId\<close> whose entry, if stored, is "scheduled" and, with
    \<open>both\<close>, away from an \<open>entryId\<close> that names no stored entry.
  \<^item> Every other call, the deletes among them, is admissible as it is.
\<close>

fun admissible :: "bool \<Rightarrow> call \<Rightarrow> memStorage \<Rightarrow> bool" where
  "admissible both (CreateEntry now ins) S =
     (both \<longrightarrow> ie_visibility ins \<noteq> Some ''scheduled'')"
| "admissible both (UpdateEntry i p) S =
     (case getEntryById S i of
        None \<Rightarrow> True
      | Some e \<Rightarrow>
          (pe_id p = None \<or> pe_id p = Some (entry_id e)) \<and>
          (case pe_visibility p of
             None \<Rightarrow> True
           | Some v \<Rightarrow>
               (getSchedulesByEntryId S (entry_id e) \<noteq> None \<longrightarrow> v = Some ''scheduled'') \<and>
               (both \<longrightarrow> v = Some ''scheduled'' \<longrightarrow>
                  getSchedulesByEntryId S (entry_id e) \<noteq> None)))"
| "admissible both (CreateSchedule now ins) S = freeEntryId S (is_entryId ins)"
| "admissible both (UpdateSchedule i p) S =
     (case getScheduleById S i of
        None \<Rightarrow> True
      | Some s \<Rightarrow>
          (both \<longrightarrow> ps_id p = None \<or> ps_id p = Some (schedule_id s)) \<and>
          (case ps_entryId p of
             None \<Rightarrow> True
           | Some x \<Rightarrow>
               x = schedule_entryId s \<or>
               (freeEntryId S x \<and>
                (case entryNamed S x of
                   None \<Rightarrow> True
                 | Some e \<Rightarrow> entry_visibility e = Some ''scheduled'') \<and>
                (both \<longrightarrow> entryNamed S (schedule_entryId s) = None))))"
| "admissible both _ S = True"

fun admissibleRun :: "bool \<Rightarrow> call list \<Rightarrow> memStorage \<Rightarrow> bool" where
  "admissibleRun both [] S = True"
| "admissibleRun both (c # cs) S =
     (admissible both c S \<and> admissibleRun both cs (perform c S))"

text \<open>The invariant behind it, on the two maps and their counters. Keys are distinct
  and below the counter; each entry sits under its own id and, with \<open>both\<close>, so does
  each schedule; no schedule names an entry id that is still to be handed out; a
  stored entry is named by one schedule at most; and visibility is in step, in one
  direction or in both.\<close>

definition entries_ok :: "entry jsmap \<Rightarrow> int \<Rightarrow> bool" where
  "entries_ok es c =
     (distinct (map fst es) \<and> (\<forall>p \<in> set es. entry_id (snd p) = fst p \<and> fst p < c))"

definition schedules_ok :: "bool \<Rightarrow> schedule jsmap \<Rightarrow> int \<Rightarrow> bool" where
  "schedules_ok both ss c =
     (distinct (map fst ss) \<and>
      (\<forall>p \<in> set ss. fst p < c \<and> (both \<longrightarrow> schedule_id (snd p) = fst p)))"

definition refs_ok :: "schedule jsmap \<Rightarrow> int \<Rightarrow> bool" where
  "refs_ok ss c = (\<forall>p \<in> set ss. \<forall>e. schedule_entryId (snd p) = Some e \<longrightarrow> e < c)"

definition single_schedule :: "entry jsmap \<Rightarrow> schedule jsmap \<Rightarrow> bool" where
  "single_schedule es ss =
     (\<forall>p \<in> set ss. \<forall>q \<in> set ss. \<forall>e \<in> fst ` set es.
        schedule_entryId (snd p) = Some e \<longrightarrow> schedule_entryId (snd q) = Some e \<longrightarrow> p = q)"

text \<open>Some stored schedule names entry id \<open>x\<close>.\<close>

definition named :: "schedule jsmap \<Rightarrow> int \<Rightarrow> bool" where
  "named ss x = (\<exists>q \<in> set ss. schedule_entryId (snd q) = Some x)"

definition sync :: "bool \<Rightarrow> entry jsmap \<Rightarrow> schedule jsmap \<Rightarrow> bool" where
  "sync both es ss =
     (\<forall>p \<in> set es.
        (named ss (entry_id (snd p)) \<longrightarrow> entry_visibility (snd p) = Some ''scheduled'') \<and>
        (both \<longrightarrow> entry_visibility (snd p) = Some ''scheduled'' \<longrightarrow>
           named ss (entry_id (snd p))))"

definition coordinated :: "bool \<Rightarrow> memStorage \<Rightarrow> bool" where
  "coordinated both S =
     (entries_ok (entries S) (entryIdCounter S) \<and>
      schedules_ok both (schedules S) (scheduleIdCounter S) \<and>
      refs_ok (schedules S) (entryIdCounter S) \<and>
      single_schedule (entries S) (schedules S) \<and>
      sync both (entries S) (schedules S))"

subsection \<open>Sample call sequences\<close>

text \<open>What the client's edit forms send: a new title and, always, visibility "private".\<close>

definition clientEdit :: partialEntry where
  "clientEdit = noEntryPatch\<lparr> pe_title := Some ''Hello'', pe_visibility := Some (Some ''private'') \<rparr>"

text \<open>Edits of an entry before and after it is scheduled, a schedule made and deleted
  again, an entry deleted, a schedule made for the deleted entry and then moved to no
  entry.\<close>

definition sampleRun :: "call list" where
  "sampleRun =
     [CreateEntry 0 sampleEntry, CreateEntry 1 sampleEntry,
      UpdateEntry 2 clientEdit,
      CreateSchedule 5 (sampleSchedule 1), CreateSchedule 6 (sampleSchedule 2),
      UpdateEntry 1 (noEntryPatch\<lparr> pe_id := Some 1, pe_visibility := Some (Some ''scheduled'') \<rparr>),
      UpdateSchedule 1 (noSchedulePatch\<lparr> ps_deliveryDate := Some 2000 \<rparr>),
      DeleteSchedule 2, UpdateEntry 2 clientEdit,
      CreateEntry 7 sampleEntry, DeleteEntry 3, CreateSchedule 8 (sampleSchedule 3),
      UpdateSchedule 3 (noSchedulePatch\<lparr> ps_entryId := Some None \<rparr>)]"

text \<open>An entry created as "scheduled" with no schedule; a second entry with a schedule,
  marked "scheduled" again by an edit; a third entry edited by the client; the
  schedule's \<open>id\<close> patched, and the schedule moved to the first entry.\<close>

definition lenientRun :: "call list" where
  "lenientRun =
     [CreateEntry 0 (sampleEntry\<lparr> ie_visibility := Some ''scheduled'' \<rparr>),
      CreateEntry 1 sampleEntry, CreateEntry 2 sampleEntry, UpdateEntry 3 clientEdit,
      CreateSchedule 5 (sampleSchedule 2),
      UpdateEntry 2 (noEntryPatch\<lparr> pe_visibility := Some (Some ''scheduled'') \<rparr>),
      UpdateSchedule 1 (noSchedulePatch\<lparr> ps_id := Some 9 \<rparr>),
      UpdateSchedule 1 (noSchedulePatch\<lparr> ps_entryId := Some (Some 1) \<rparr>)]"

text \<open>Two entries, each with a schedule.\<close>

definition twoScheduledRun :: "call list" where
  "twoScheduledRun =
     [CreateEntry 0 sampleEntry, CreateEntry 1 sampleEntry,
      CreateSchedule 5 (sampleSchedule 1), CreateSchedule 6 (sampleSchedule 2)]"

text \<open>Two schedules for one entry, the first of them deleted again.\<close>

definition doubleRun :: "call list" where
  "doubleRun =
     [CreateEntry 0 sampleEntry, CreateSchedule 5 (sampleSchedule 1),
      CreateSchedule 6 (sampleSchedule 1), DeleteSchedule 1]"

text \<open>A schedule whose \<open>id\<close> property was patched to 2 while it stays under key 1.\<close>

definition repatchedRun :: "call list" where
  "repatchedRun =
     [CreateEntry 0 sampleEntry, CreateSchedule 5 (sampleSchedule 1),
      UpdateSchedule 1 (noSchedulePatch\<lparr> ps_id := Some 2 \<rparr>)]"

text \<open>The same patch in a store with a second entry, whose schedule sits under key 2.\<close>

definition crossedRun :: "call list" where
  "crossedRun = twoScheduledRun @ [UpdateSchedule 1 (noSchedulePatch\<lparr> ps_id := Some 2 \<rparr>)]"

text \<open>An entry whose \<open>id\<close> property was patched to 5 while it stays under key 1.\<close>

definition rekeyedRun :: "call list" where
  "rekeyedRun = [CreateEntry 0 sampleEntry, UpdateEntry 1 (noEntryPatch\<lparr> pe_id := Some 5 \<rparr>)]"

text \<open>Entries of two users; the third entry has a schedule for contact 2, which is
  deleted afterwards, the second a schedule as well.\<close>

definition mixedRun :: "call list" where
  "mixedRun =
     [CreateEntry 0 sampleEntry, CreateEntry 1 (sampleEntry\<lparr> ie_userId := Some 2 \<rparr>),
      CreateEntry 2 sampleEntry, CreateSchedule 5 (sampleSchedule 3),
      CreateSchedule 6 ((sampleSchedule 2)\<lparr> is_contactId := Some 3 \<rparr>), DeleteContact 2]"

section \<open>Properties\<close>

subsection \<open>Lookups after \<open>Map.set\<close> and \<open>Map.delete\<close>\<close>

lemma map_of_Map_set: "map_of (Map_set k v m) = (map_of m)(k \<mapsto> v)"
  by (induction m) (auto simp: fun_eq_iff)

lemma Map_get_Map_set:
  "Map_get (Map_set k v m) k' = (if k' = k then Some v else Map_get m k')"
  by (simp add: Map_get_def map_of_Map_set)

lemma filter_absent_key: "map_of m k = None \<Longrightarrow> filter (\<lambda>p. fst p \<noteq> k) m = m"
  by (induction m) (auto split: if_splits)

lemma map_of_filter_key:
  "map_of (filter (\<lambda>p. fst p \<noteq> k) m) k' = (if k' = k then None else map_of m k')"
  by (induction m) auto

lemma Map_delete_absent: "Map_get m k = None \<Longrightarrow> Map_delete k m = (False, m)"
  by (simp add: Map_delete_def Map_get_def filter_absent_key)

lemma Map_get_Map_delete:
  "Map_get (snd (Map_delete k m)) k' = (if k' = k then None else Map_get m k')"
  by (simp add: Map_delete_def Map_get_def map_of_filter_key)

subsection \<open>Schedule updates, absent ids, default owner\<close>

text \<open>
  Claim C7. For an id under which a schedule is stored, \<open>updateSchedule\<close> returns the
  merged record and leaves the map of entries exactly as it was: no entry, and so no
  entry's visibility, is touched by a schedule update.
\<close>

theorem updateSchedule_keeps_entries:
  "getScheduleById S i = Some s \<Longrightarrow>
     fst (updateSchedule i p S) = Some (mergeSchedule s p) \<and>
     entries (snd (updateSchedule i p S)) = entries S"
  by (simp add: updateSchedule_def getScheduleById_def Let_def)

theorem updateSchedule_keeps_entries_witness:
  "getScheduleById scheduledStore 1 \<noteq> None \<and>
   entries (snd (updateSchedule 1 (noSchedulePatch\<lparr> ps_deliveryDate := Some 2000 \<rparr>)
     scheduledStore)) = entries scheduledStore"
proof -
  obtain s where s: "getScheduleById scheduledStore 1 = Some s"
    by (cases "getScheduleById scheduledStore 1") (simp_all, code_simp)
  from updateSchedule_keeps_entries [OF s] s show ?thesis by simp
qed

text \<open>
  Claim C8. \<open>deleteEntry\<close> has no failing branch (the model is total, as the method has
  no \<open>throw\<close>): for an id under which no entry is stored it answers false, and a second
  \<open>deleteEntry\<close> of the same id, right after the first, answers false for any id.
\<close>

theorem deleteEntry_absent:
  "(getEntryById S i = None \<longrightarrow> \<not> fst (deleteEntry i S)) \<and>
   \<not> fst (deleteEntry i (snd (deleteEntry i S)))"
  by (simp add: deleteEntry_def getEntryById_def Map_get_def Map_delete_def Let_def
      map_of_filter_key)

theorem deleteEntry_absent_witness:
  "getEntryById newMemStorage 7 = None \<and> \<not> fst (deleteEntry 7 newMemStorage) \<and>
   fst (deleteEntry 1 scheduledStore) \<and>
   \<not> fst (deleteEntry 1 (snd (deleteEntry 1 scheduledStore)))"
proof -
  have a: "getEntryById newMemStorage 7 = None" by code_simp
  have b: "fst (deleteEntry 1 scheduledStore)" by code_simp
  from deleteEntry_absent [of newMemStorage 7] deleteEntry_absent [of scheduledStore 1] a b
  show ?thesis by simp
qed

text \<open>
  Claim C9. For an id under which no schedule is stored, \<open>deleteSchedule\<close> answers false
  and returns the store it was given: no schedule is removed, no entry is changed.
\<close>

theorem deleteSchedule_absent:
  "getScheduleById S i = None \<Longrightarrow> deleteSchedule i S = (False, S)"
  by (simp add: deleteSchedule_def getScheduleById_def Map_delete_absent)

theorem deleteSchedule_absent_witness:
  "getScheduleById scheduledStore 2 = None \<and>
   deleteSchedule 2 scheduledStore = (False, scheduledStore)"
proof -
  have a: "getScheduleById scheduledStore 2 = None" by code_simp
  from deleteSchedule_absent [OF a] a show ?thesis by simp
qed

text \<open>
  Claim C10. The entry that \<open>createEntry\<close> returns belongs to user 1 when the insert
  record has no \<open>userId\<close> or has \<open>userId\<close> 0, and to the supplied user otherwise; the
  same record is the one stored under the new id.
\<close>

theorem createEntry_userId:
  "entry_userId (fst (createEntry now ins S)) =
     (case ie_userId ins of None \<Rightarrow> Some 1 | Some u \<Rightarrow> if u = 0 then Some 1 else Some u) \<and>
   getEntryById (snd (createEntry now ins S)) (entry_id (fst (createEntry now ins S))) =
     Some (fst (createEntry now ins S))"
  by (simp add: createEntry_def Let_def num_or_def getEntryById_def Map_get_Map_set
      split: option.splits)

theorem createEntry_userId_witness:
  "entry_userId (fst (createEntry 0 (sampleEntry\<lparr> ie_userId := None \<rparr>) newMemStorage)) = Some 1 \<and>
   entry_userId (fst (createEntry 0 (sampleEntry\<lparr> ie_userId := Some 0 \<rparr>) newMemStorage)) = Some 1 \<and>
   entry_userId (fst (createEntry 0 (sampleEntry\<lparr> ie_userId := Some 4 \<rparr>) newMemStorage)) = Some 4"
  using createEntry_userId [of 0 "sampleEntry\<lparr> ie_userId := None \<rparr>" newMemStorage]
    createEntry_userId [of 0 "sampleEntry\<lparr> ie_userId := Some 0 \<rparr>" newMemStorage]
    createEntry_userId [of 0 "sampleEntry\<lparr> ie_userId := Some 4 \<rparr>" newMemStorage]
  by (simp add: sampleEntry_def)

subsection \<open>The combined view\<close>

lemma truncate_viewOf: "entry.truncate (viewOf S e) = e"
  by (simp add: viewOf_def Let_def entry.truncate_def entry.extend_def)

lemma entry_id_viewOf: "entry_id (viewOf S e) = entry_id e"
  by (simp add: viewOf_def Let_def entry.extend_def)

lemma schedule_viewOf:
  "schedule (viewOf S e) =
     (case getSchedulesByEntryId S (entry_id e) of
        None \<Rightarrow> None
      | Some s \<Rightarrow> Some (schedule.extend s (scheduleWithContact.fields
          (case schedule_contactId s of None \<Rightarrow> None | Some cid \<Rightarrow> getContactById S cid))))"
  by (simp add: viewOf_def Let_def entry.extend_def entryWithSchedule.fields_def
      split: option.splits)

lemma truncate_extend_schedule: "schedule.truncate (schedule.extend s x) = s"
  by (simp add: schedule.truncate_def schedule.extend_def)

lemma contact_extend: "contact (schedule.extend s (scheduleWithContact.fields c)) = c"
  by (simp add: schedule.extend_def scheduleWithContact.fields_def)

lemma contactId_extend: "schedule_contactId (schedule.extend s x) = schedule_contactId s"
  by (simp add: schedule.extend_def)

text \<open>
  Claim C6. \<open>getEntriesWithSchedules\<close> returns one view record per entry owned by the
  user: dropping the added field from the records gives the stored entries whose
  \<open>userId\<close> is the user's, in the order of the map, which is also the list \<open>getEntries\<close>
  returns. The schedule embedded in a record is the first stored schedule whose
  \<open>entryId\<close> is the entry's id (what \<open>getSchedulesByEntryId\<close> finds), and the contact
  embedded in it is what is stored under the schedule's \<open>contactId\<close> (what \<open>getContactById\<close>
  finds): absent when no contact is stored under it. The model is total, as the method
  has no failing branch.
\<close>

theorem getEntriesWithSchedules_view:
  "map entry.truncate (getEntriesWithSchedules S uid) =
     filter (\<lambda>e. entry_userId e = Some uid) (map snd (entries S)) \<and>
   map entry.truncate (getEntriesWithSchedules S uid) = getEntries S uid \<and>
   (\<forall>r \<in> set (getEntriesWithSchedules S uid).
      entry_userId r = Some uid \<and>
      map_option schedule.truncate (schedule r) =
        List.find (\<lambda>s. schedule_entryId s = Some (entry_id r)) (map snd (schedules S)) \<and>
      map_option schedule.truncate (schedule r) = getSchedulesByEntryId S (entry_id r) \<and>
      (\<forall>s. schedule r = Some s \<longrightarrow>
         contact s = (case schedule_contactId s of None \<Rightarrow> None
                      | Some cid \<Rightarrow> map_of (contacts S) cid) \<and>
         contact s = (case schedule_contactId s of None \<Rightarrow> None
                      | Some cid \<Rightarrow> getContactById S cid)))"
proof -
  have 1: "map entry.truncate (getEntriesWithSchedules S uid) = getEntries S uid"
    by (simp add: getEntriesWithSchedules_def truncate_viewOf comp_def)
  have 2: "getEntries S uid = filter (\<lambda>e. entry_userId e = Some uid) (map snd (entries S))"
    by (simp add: getEntries_def Map_values_def)
  have 3: "map_option schedule.truncate (schedule (viewOf S e)) =
      getSchedulesByEntryId S (entry_id (viewOf S e))" for e
    by (simp add: schedule_viewOf entry_id_viewOf truncate_extend_schedule
        split: option.splits)
  have 4: "getSchedulesByEntryId S i =
      List.find (\<lambda>s. schedule_entryId s = Some i) (map snd (schedules S))" for i
    by (simp add: getSchedulesByEntryId_def Array_find_def Map_values_def)
  have 5: "schedule (viewOf S e) = Some s \<Longrightarrow>
      contact s = (case schedule_contactId s of None \<Rightarrow> None
                   | Some cid \<Rightarrow> getContactById S cid)" for e s
    by (auto simp: schedule_viewOf contact_extend contactId_extend split: option.splits)
  have 6: "getContactById S cid = map_of (contacts S) cid" for cid
    by (simp add: getContactById_def Map_get_def)
  have 7: "entry_userId (viewOf S e) = Some uid" if "e \<in> set (getEntries S uid)" for e
    using that by (simp add: getEntries_def viewOf_def Let_def entry.extend_def)
  show ?thesis
  proof (intro conjI ballI allI impI)
    show "map entry.truncate (getEntriesWithSchedules S uid) =
        filter (\<lambda>e. entry_userId e = Some uid) (map snd (entries S))"
      using 1 2 by simp
    show "map entry.truncate (getEntriesWithSchedules S uid) = getEntries S uid"
      by (rule 1)
  next
    fix r
    assume "r \<in> set (getEntriesWithSchedules S uid)"
    then obtain e where e: "e \<in> set (getEntries S uid)" "r = viewOf S e"
      by (auto simp: getEntriesWithSchedules_def)
    show "entry_userId r = Some uid" using e 7 by simp
    show "map_option schedule.truncate (schedule r) = getSchedulesByEntryId S (entry_id r)"
      using e(2) 3 by simp
    then show "map_option schedule.truncate (schedule r) =
        List.find (\<lambda>s. schedule_entryId s = Some (entry_id r)) (map snd (schedules S))"
      using 4 by simp
    fix s
    assume "schedule r = Some s"
    with e(2) 5 show c: "contact s = (case schedule_contactId s of None \<Rightarrow> None
        | Some cid \<Rightarrow> getContactById S cid)"
      by simp
    then show "contact s = (case schedule_contactId s of None \<Rightarrow> None
        | Some cid \<Rightarrow> map_of (contacts S) cid)"
      using 6 by (simp split: option.splits)
  qed
qed

theorem getEntriesWithSchedules_view_witness:
  "map (\<lambda>p. (fst p, entry_userId (snd p))) (entries (run mixedRun newMemStorage)) =
     [(1, Some 1), (2, Some 2), (3, Some 1)] \<and>
   map entry_id (getEntriesWithSchedules (run mixedRun newMemStorage) 1) = [1, 3] \<and>
   map entry_id (getEntriesWithSchedules (run mixedRun newMemStorage) 2) = [2] \<and>
   map (map_option contact \<circ> schedule) (getEntriesWithSchedules (run mixedRun newMemStorage) 1) =
     [None, Some None] \<and>
   map (map_option (map_option contact_id \<circ> contact) \<circ> schedule)
     (getEntriesWithSchedules (run mixedRun newMemStorage) 2) = [Some (Some 3)] \<and>
   map entry.truncate (getEntriesWithSchedules (run mixedRun newMemStorage) 1) =
     filter (\<lambda>e. entry_userId e = Some 1) (map snd (entries (run mixedRun newMemStorage))) \<and>
   map entry.truncate (getEntriesWithSchedules (run mixedRun newMemStorage) 1) =
     getEntries (run mixedRun newMemStorage) 1 \<and>
   map_option schedule.truncate
     (schedule (last (getEntriesWithSchedules (run mixedRun newMemStorage) 1))) =
     getSchedulesByEntryId (run mixedRun newMemStorage) 3 \<and>
   map_option contact (schedule (last (getEntriesWithSchedules (run mixedRun newMemStorage) 1))) =
     Some (map_of (contacts (run mixedRun newMemStorage)) 2)"
proof -
  define S where "S = run mixedRun newMemStorage"
  define r where "r = last (getEntriesWithSchedules S 1)"
  have a: "map (\<lambda>p. (fst p, entry_userId (snd p))) (entries S) =
      [(1, Some 1), (2, Some 2), (3, Some 1)]"
    unfolding S_def by code_simp
  have b: "map entry_id (getEntriesWithSchedules S 1) = [1, 3]"
    unfolding S_def by code_simp
  have c: "map entry_id (getEntriesWithSchedules S 2) = [2]"
    unfolding S_def by code_simp
  have d: "map (map_option contact \<circ> schedule) (getEntriesWithSchedules S 1) =
      [None, Some None]"
    unfolding S_def by code_simp
  have e: "map (map_option (map_option contact_id \<circ> contact) \<circ> schedule)
      (getEntriesWithSchedules S 2) = [Some (Some 3)]"
    unfolding S_def by code_simp
  from b have ne: "getEntriesWithSchedules S 1 \<noteq> []" by auto
  then have m: "r \<in> set (getEntriesWithSchedules S 1)" unfolding r_def by simp
  have "entry_id r = last (map entry_id (getEntriesWithSchedules S 1))"
    unfolding r_def using ne by (simp add: last_map)
  with b have i: "entry_id r = 3" by simp
  have "map_option contact (schedule r) =
      last (map (map_option contact \<circ> schedule) (getEntriesWithSchedules S 1))"
    unfolding r_def using ne by (simp add: last_map)
  with d obtain s where s: "schedule r = Some s" by auto
  have k: "schedule_contactId s = Some 2"
  proof -
    have "map_option schedule_contactId (schedule r) =
        last (map (map_option schedule_contactId \<circ> schedule) (getEntriesWithSchedules S 1))"
      unfolding r_def using ne by (simp add: last_map)
    also have "\<dots> = Some (Some 2)" unfolding S_def by code_simp
    finally show ?thesis using s by simp
  qed
  from getEntriesWithSchedules_view [of S 1] m s
  have t: "map entry.truncate (getEntriesWithSchedules S 1) =
        filter (\<lambda>e. entry_userId e = Some 1) (map snd (entries S))"
      "map entry.truncate (getEntriesWithSchedules S 1) = getEntries S 1"
      "map_option schedule.truncate (schedule r) = getSchedulesByEntryId S (entry_id r)"
      "contact s = (case schedule_contactId s of None \<Rightarrow> None
                   | Some cid \<Rightarrow> map_of (contacts S) cid)"
    by blast+
  from t(3) i have t3: "map_option schedule.truncate (schedule r) = getSchedulesByEntryId S 3"
    by simp
  from t(4) s k have t4: "map_option contact (schedule r) = Some (map_of (contacts S) 2)"
    by simp
  from a b c d e t(1) t(2) t3 t4 show ?thesis unfolding S_def r_def by blast
qed

subsection \<open>Creating and deleting a schedule\<close>

text \<open>
  Claim C2, amended. Let \<open>e\<close> be an entry held by the store, with visibility "private",
  such that the record stored under \<open>e\<close>'s id has that id (\<open>getEntryById\<close> finds under
  \<open>e\<close>'s id a record \<open>r\<close> whose id is \<open>e\<close>'s). After \<open>createSchedule\<close> with that \<open>entryId\<close>,
  \<open>getEntryById\<close> finds a record with visibility "scheduled"; after \<open>deleteSchedule\<close> of
  the id of the schedule just returned, it finds a record with visibility "private".
\<close>

theorem schedule_roundtrip_visibility:
  assumes "e \<in> set (Map_values (entries S))"
    and "entry_visibility e = Some ''private''"
    and "getEntryById S (entry_id e) = Some r" and "entry_id r = entry_id e"
    and "is_entryId ins = Some (entry_id e)"
  shows "map_option entry_visibility
           (getEntryById (snd (createSchedule now ins S)) (entry_id e)) =
           Some (Some ''scheduled'') \<and>
         map_option entry_visibility
           (getEntryById (snd (deleteSchedule (schedule_id (fst (createSchedule now ins S)))
              (snd (createSchedule now ins S)))) (entry_id e)) = Some (Some ''private'')"
  using assms(3,4,5)
  by (simp add: createSchedule_def deleteSchedule_def updateEntry_def getEntryById_def
      Let_def Map_get_Map_set Map_delete_def mergeEntry_def visibilityPatch_def
      noEntryPatch_def spread_def)

theorem schedule_roundtrip_visibility_witness:
  "map (\<lambda>p. (fst p, entry_id (snd p), entry_visibility (snd p))) (entries entryStore) =
     [(1, 1, Some ''private'')] \<and>
   map_option entry_visibility
     (getEntryById (snd (createSchedule 5 (sampleSchedule 1) entryStore)) 1) =
     Some (Some ''scheduled'') \<and>
   map_option entry_visibility
     (getEntryById (snd (deleteSchedule
        (schedule_id (fst (createSchedule 5 (sampleSchedule 1) entryStore)))
        (snd (createSchedule 5 (sampleSchedule 1) entryStore)))) 1) = Some (Some ''private'')"
proof -
  define e where "e = fst (createEntry 0 sampleEntry newMemStorage)"
  have s: "map (\<lambda>p. (fst p, entry_id (snd p), entry_visibility (snd p))) (entries entryStore) =
      [(1, 1, Some ''private'')]" by code_simp
  have i: "entry_id e = 1" unfolding e_def by code_simp
  have m: "e \<in> set (Map_values (entries entryStore))" unfolding e_def by code_simp
  have a: "getEntryById entryStore (entry_id e) = Some e" unfolding e_def by code_simp
  have b: "entry_visibility e = Some ''private''" unfolding e_def by code_simp
  have c: "is_entryId (sampleSchedule 1) = Some (entry_id e)"
    by (simp add: i sampleSchedule_def)
  from schedule_roundtrip_visibility [OF m b a refl c, of 5] s i show ?thesis by simp
qed

text \<open>The claim as first stated, for every entry the store holds: \<open>updateEntry\<close> merges
  any property, \<open>id\<close> included, and keeps the record under its old key. The store
  then holds a private entry with id 5 under key 1 and nothing under key 5, and after
  \<open>createSchedule\<close> for entry 5 \<open>getEntryById 5\<close> finds nothing.\<close>

theorem schedule_roundtrip_visibility_counterexample:
  "map (\<lambda>p. (fst p, entry_id (snd p), entry_visibility (snd p)))
     (entries (run rekeyedRun newMemStorage)) = [(1, 5, Some ''private'')] \<and>
   getEntryById (snd (createSchedule 5 (sampleSchedule 5) (run rekeyedRun newMemStorage))) 5 =
     None"
  by code_simp

subsection \<open>Id counters\<close>

lemma counters_updateEntry: "counters (snd (updateEntry i p S)) = counters S"
  by (simp add: updateEntry_def counters_def Let_def split: option.splits)

lemma counters_createSchedule:
  "counters (snd (createSchedule now ins S)) =
     (userIdCounter S, categoryIdCounter S, entryIdCounter S, contactIdCounter S,
      scheduleIdCounter S + 1)"
  by (simp add: createSchedule_def Let_def counters_updateEntry split: option.splits)
     (simp add: counters_def)

lemma counters_deleteSchedule: "counters (snd (deleteSchedule i S)) = counters S"
proof -
  have "counters (S'\<lparr>schedules := m\<rparr>) = counters S'" for S' m
    by (simp add: counters_def)
  then show ?thesis
    by (simp add: deleteSchedule_def Let_def counters_updateEntry
        split: option.splits prod.splits)
qed

lemma counters_perform:
  "counters (perform c S) =
     (case c of
        CreateUser _ \<Rightarrow> (userIdCounter S + 1, categoryIdCounter S, entryIdCounter S,
          contactIdCounter S, scheduleIdCounter S)
      | CreateCategory _ \<Rightarrow> (userIdCounter S, categoryIdCounter S + 1, entryIdCounter S,
          contactIdCounter S, scheduleIdCounter S)
      | CreateEntry _ _ \<Rightarrow> (userIdCounter S, categoryIdCounter S, entryIdCounter S + 1,
          contactIdCounter S, scheduleIdCounter S)
      | CreateContact _ \<Rightarrow> (userIdCounter S, categoryIdCounter S, entryIdCounter S,
          contactIdCounter S + 1, scheduleIdCounter S)
      | CreateSchedule _ _ \<Rightarrow> (userIdCounter S, categoryIdCounter S, entryIdCounter S,
          contactIdCounter S, scheduleIdCounter S + 1)
      | _ \<Rightarrow> counters S)"
proof (cases c)
  case (CreateSchedule now ins)
  then show ?thesis by (simp add: counters_createSchedule)
next
  case (DeleteSchedule i)
  then show ?thesis by (simp add: counters_deleteSchedule)
next
  case (UpdateEntry i p)
  then show ?thesis by (simp add: counters_updateEntry)
qed (simp_all add: counters_def createUser_def createCategory_def deleteCategory_def
      createEntry_def deleteEntry_def createContact_def updateContact_def deleteContact_def
      updateSchedule_def Let_def split: option.splits prod.splits)

lemma counterOf_counters: "counterOf k S = pick k (counters S)"
  by (cases k) (simp_all add: counters_def pick_def)

lemma counterOf_perform_mono: "counterOf k S \<le> counterOf k (perform c S)"
  unfolding counterOf_counters counters_perform
  by (cases c; cases k; simp add: pick_def counters_def)

lemma created_id:
  "created c S = Some (k, i) \<Longrightarrow> i = counterOf k S"
  by (cases c)
    (auto simp add: createUser_def createCategory_def createEntry_def createContact_def
       createSchedule_def Let_def split: option.splits)

lemma created_counter:
  "created c S = Some (k, i) \<Longrightarrow> i = counterOf k S \<and> counterOf k (perform c S) = i + 1"
proof
  assume a: "created c S = Some (k, i)"
  then show i: "i = counterOf k S" by (rule created_id)
  from a have "pick k (counters (perform c S)) = pick k (counters S) + 1"
    unfolding counters_perform
    by (cases c; cases k; simp add: pick_def counters_def)
  with i show "counterOf k (perform c S) = i + 1"
    by (simp add: counterOf_counters)
qed

lemma createdIds_lower: "\<forall>i \<in> set (createdIds k cs S). counterOf k S \<le> i"
proof (induction cs arbitrary: S)
  case Nil
  show ?case by simp
next
  case (Cons c cs)
  have mono: "counterOf k S \<le> counterOf k (perform c S)" by (rule counterOf_perform_mono)
  have rest: "\<forall>i \<in> set (createdIds k cs (perform c S)). counterOf k S \<le> i"
    using Cons.IH [of "perform c S"] mono by auto
  show ?case
  proof (cases "created c S")
    case None
    with rest show ?thesis by simp
  next
    case (Some a)
    obtain k' i where a: "a = (k', i)" by (cases a)
    from created_counter Some a have "i = counterOf k' S" by blast
    with rest Some a show ?thesis by auto
  qed
qed

lemma createdIds_increasing: "sorted_wrt (<) (createdIds k cs S)"
proof (induction cs arbitrary: S)
  case Nil
  show ?case by simp
next
  case (Cons c cs)
  show ?case
  proof (cases "created c S")
    case None
    with Cons.IH show ?thesis by simp
  next
    case (Some a)
    obtain k' i where a: "a = (k', i)" by (cases a)
    show ?thesis
    proof (cases "k' = k")
      case True
      from created_counter Some a True
      have "counterOf k (perform c S) = i + 1" by blast
      with createdIds_lower [of k cs "perform c S"]
      have "\<forall>j \<in> set (createdIds k cs (perform c S)). i < j" by auto
      with Cons.IH [of "perform c S"] Some a True show ?thesis by simp
    next
      case False
      with Cons.IH [of "perform c S"] Some a show ?thesis by simp
    qed
  qed
qed

lemma counters_new: "counters newMemStorage = (2, 4, 1, 4, 1)"
  by code_simp

lemma counterOf_new: "0 < counterOf k newMemStorage"
  by (cases k) (simp_all add: counterOf_counters counters_new pick_def del: counterOf.simps)

text \<open>
  Claim C4. Starting from the seeded store, for any sequence of calls (creates and
  deletes of one entity type are a special case) and any entity type, the ids that
  the create calls of that type return, in the order of the calls, are strictly
  increasing, hence pairwise different, and positive. A delete never lowers a
  counter, so the id of a deleted record is not handed out again.
\<close>

theorem created_ids_increasing:
  "sorted_wrt (<) (createdIds k cs newMemStorage) \<and>
   distinct (createdIds k cs newMemStorage) \<and>
   (\<forall>i \<in> set (createdIds k cs newMemStorage). 0 < i)"
proof -
  have s: "sorted_wrt (<) (createdIds k cs newMemStorage)" by (rule createdIds_increasing)
  then have "distinct (createdIds k cs newMemStorage)"
    by (simp add: strict_sorted_iff)
  moreover have "\<forall>i \<in> set (createdIds k cs newMemStorage). 0 < i"
    using createdIds_lower [of k cs newMemStorage] counterOf_new [of k] by fastforce
  ultimately show ?thesis using s by simp
qed

theorem created_ids_increasing_witness:
  "createdIds Entry [CreateEntry 0 sampleEntry, DeleteEntry 1, CreateEntry 1 sampleEntry,
      CreateEntry 1 sampleEntry, DeleteEntry 3, DeleteEntry 2, CreateEntry 1 sampleEntry]
      newMemStorage = [1, 2, 3, 4] \<and>
   sorted_wrt (<) (createdIds Entry [CreateEntry 0 sampleEntry, DeleteEntry 1,
      CreateEntry 1 sampleEntry, CreateEntry 1 sampleEntry, DeleteEntry 3, DeleteEntry 2,
      CreateEntry 1 sampleEntry] newMemStorage) \<and>
   distinct (createdIds Entry [CreateEntry 0 sampleEntry, DeleteEntry 1,
      CreateEntry 1 sampleEntry, CreateEntry 1 sampleEntry, DeleteEntry 3, DeleteEntry 2,
      CreateEntry 1 sampleEntry] newMemStorage) \<and>
   0 < hd (createdIds Entry [CreateEntry 0 sampleEntry, DeleteEntry 1,
      CreateEntry 1 sampleEntry, CreateEntry 1 sampleEntry, DeleteEntry 3, DeleteEntry 2,
      CreateEntry 1 sampleEntry] newMemStorage)"
proof -
  define cs where "cs = [CreateEntry 0 sampleEntry, DeleteEntry 1, CreateEntry 1 sampleEntry,
      CreateEntry 1 sampleEntry, DeleteEntry 3, DeleteEntry 2, CreateEntry 1 sampleEntry]"
  have a: "createdIds Entry cs newMemStorage = [1, 2, 3, 4]"
    unfolding cs_def by code_simp
  then have m: "hd (createdIds Entry cs newMemStorage) \<in> set (createdIds Entry cs newMemStorage)"
    by simp
  from created_ids_increasing [of Entry cs] m
  have "sorted_wrt (<) (createdIds Entry cs newMemStorage) \<and>
      distinct (createdIds Entry cs newMemStorage) \<and>
      0 < hd (createdIds Entry cs newMemStorage)"
    by blast
  with a show ?thesis unfolding cs_def by blast
qed

subsection \<open>Cascade on entry deletion\<close>

lemma Map_set_fresh: "k \<notin> fst ` set m \<Longrightarrow> Map_set k v m = m @ [(k, v)]"
  by (induction m) auto

lemma fold_filter_keys:
  "fold (\<lambda>s. filter (\<lambda>p. fst p \<noteq> f s)) ss m = filter (\<lambda>p. fst p \<notin> f ` set ss) m"
proof (induction ss arbitrary: m)
  case Nil
  show ?case by simp
next
  case (Cons s ss)
  have "fold (\<lambda>s. filter (\<lambda>p. fst p \<noteq> f s)) (s # ss) m =
      filter (\<lambda>p. fst p \<notin> f ` set ss) (filter (\<lambda>p. fst p \<noteq> f s) m)"
    by (simp add: Cons.IH)
  also have "\<dots> = filter (\<lambda>p. fst p \<notin> f ` set (s # ss)) m"
    by (auto intro: filter_cong)
  finally show ?case .
qed

text \<open>The store after \<open>deleteEntry\<close>: the schedules that stay are those whose key is
  not the \<open>id\<close> property of a schedule that named the entry.\<close>

lemma snd_deleteEntry:
  "snd (deleteEntry i S) =
     S\<lparr>schedules := filter (\<lambda>p. fst p \<notin>
          schedule_id ` {s \<in> snd ` set (schedules S). schedule_entryId s = Some i}) (schedules S),
       entries := filter (\<lambda>p. fst p \<noteq> i) (entries S)\<rparr>"
proof -
  have "set (filter (\<lambda>s. schedule_entryId s = Some i) (map snd (schedules S))) =
      {s \<in> snd ` set (schedules S). schedule_entryId s = Some i}"
    by auto
  then show ?thesis
    by (simp add: deleteEntry_def Let_def Map_delete_def fold_filter_keys Map_values_def
        split: prod.splits)
qed

text \<open>
  Claim C3. After \<open>deleteEntry e\<close> no schedule whose \<open>entryId\<close> is \<open>e\<close> is to remain. The
  method collects these schedules and deletes each under its \<open>id\<close> property, not under
  the key it is stored at. After \<open>updateSchedule 1\<close> with the patch \<open>{id: 2}\<close> the schedule
  of entry 1 has \<open>id\<close> 2 under key 1: \<open>deleteEntry 1\<close> answers true, removes the entry and
  leaves its schedule in the store; with a second schedule under key 2, it removes that
  schedule, which names entry 2, in its place.
\<close>

theorem deleteEntry_misses_schedule:
  "map (\<lambda>p. (fst p, schedule_id (snd p), schedule_entryId (snd p)))
     (schedules (run repatchedRun newMemStorage)) = [(1, 2, Some 1)] \<and>
   fst (deleteEntry 1 (run repatchedRun newMemStorage)) \<and>
   map fst (entries (snd (deleteEntry 1 (run repatchedRun newMemStorage)))) = [] \<and>
   map (\<lambda>p. (fst p, schedule_id (snd p), schedule_entryId (snd p)))
     (schedules (snd (deleteEntry 1 (run repatchedRun newMemStorage)))) = [(1, 2, Some 1)] \<and>
   map (\<lambda>p. (fst p, schedule_id (snd p), schedule_entryId (snd p)))
     (schedules (run crossedRun newMemStorage)) = [(1, 2, Some 1), (2, 2, Some 2)] \<and>
   map fst (entries (snd (deleteEntry 1 (run crossedRun newMemStorage)))) = [2] \<and>
   map (\<lambda>p. (fst p, schedule_id (snd p), schedule_entryId (snd p)))
     (schedules (snd (deleteEntry 1 (run crossedRun newMemStorage)))) = [(1, 2, Some 1)]"
  by code_simp

text \<open>Where each schedule that names the entry sits under its own id, the cascade
  does what the method's comment says.\<close>

lemma deleteEntry_cascade_keyed:
  assumes "keyedFor e S"
    and "p \<in> set (schedules (snd (deleteEntry e S)))"
  shows "schedule_entryId (snd p) \<noteq> Some e"
proof
  assume n: "schedule_entryId (snd p) = Some e"
  from assms(2) have p: "p \<in> set (schedules S)"
    and out: "fst p \<notin> schedule_id ` {s \<in> snd ` set (schedules S). schedule_entryId s = Some e}"
    by (simp_all add: snd_deleteEntry)
  from assms(1) p n have "schedule_id (snd p) = fst p"
    unfolding keyedFor_def by blast
  moreover from p n have "schedule_id (snd p) \<in>
      schedule_id ` {s \<in> snd ` set (schedules S). schedule_entryId s = Some e}"
    by (intro imageI) simp
  ultimately show False using out by simp
qed

subsection \<open>The invariant of admissible calls\<close>

subsection \<open>Maps after \<open>Map.set\<close>\<close>

lemma keys_Map_set:
  "map fst (Map_set k v m) = (if k \<in> fst ` set m then map fst m else map fst m @ [k])"
  by (induction m) auto

lemma set_Map_set:
  "distinct (map fst m) \<Longrightarrow> set (Map_set k v m) = insert (k, v) {p \<in> set m. fst p \<noteq> k}"
proof (induction m)
  case Nil
  show ?case by simp
next
  case (Cons p m)
  show ?case
  proof (cases "fst p = k")
    case True
    with Cons.prems have "\<forall>q \<in> set m. fst q \<noteq> k" by (auto simp: image_iff)
    then have "{q \<in> set m. fst q \<noteq> k} = set m" by auto
    with True show ?thesis by auto
  next
    case False
    with Cons show ?thesis by auto
  qed
qed

lemma proj_Map_set:
  "map_of m k = Some v0 \<Longrightarrow> f v = f v0 \<Longrightarrow>
     map (\<lambda>p. f (snd p)) (Map_set k v m) = map (\<lambda>p. f (snd p)) m"
  by (induction m) (auto split: if_splits)

lemma map_of_keys: "(map_of m k = None) = (k \<notin> fst ` set m)"
  by (simp add: map_of_eq_None_iff)

lemma key_in: "(k, v) \<in> set m \<Longrightarrow> k \<in> fst ` set m"
  by (metis fst_conv imageI)

lemma keys_set_Map_set: "fst ` set (Map_set k v m) = insert k (fst ` set m)"
proof -
  have "set (map fst (Map_set k v m)) = insert k (set (map fst m))"
    by (simp only: keys_Map_set) auto
  then show ?thesis by simp
qed

lemma same_key:
  assumes "distinct (map fst m)" and "p \<in> set m" and "q \<in> set m" and "fst p = fst q"
  shows "p = q"
  using assms by (metis eq_key_imp_eq_value prod.collapse)

subsection \<open>Entries\<close>

lemma entry_at:
  "entries_ok es c \<Longrightarrow> map_of es k = Some e \<Longrightarrow> entry_id e = k \<and> k < c \<and> (k, e) \<in> set es"
  by (auto simp: entries_ok_def dest!: map_of_SomeD)

lemma entries_ok_Map_set:
  assumes "entries_ok es c" and "entry_id e = k" and "k < c'" and "c \<le> c'"
  shows "entries_ok (Map_set k e es) c'"
proof -
  from assms(1) have d: "distinct (map fst es)" by (simp add: entries_ok_def)
  have "distinct (map fst (Map_set k e es))"
    using d by (simp add: keys_Map_set)
  moreover have "\<forall>p \<in> set (Map_set k e es). entry_id (snd p) = fst p \<and> fst p < c'"
    using assms by (auto simp: set_Map_set [OF d] entries_ok_def)
  ultimately show ?thesis by (simp add: entries_ok_def)
qed

lemma entries_ok_filter: "entries_ok es c \<Longrightarrow> entries_ok (filter P es) c"
  by (auto simp: entries_ok_def distinct_map_filter)

subsection \<open>Schedules\<close>

lemma schedule_at:
  "schedules_ok both ss c \<Longrightarrow> map_of ss k = Some s \<Longrightarrow>
     k < c \<and> (k, s) \<in> set ss \<and> (both \<longrightarrow> schedule_id s = k)"
  by (auto simp: schedules_ok_def dest!: map_of_SomeD)

lemma schedules_ok_filter: "schedules_ok both ss c \<Longrightarrow> schedules_ok both (filter P ss) c"
  by (auto simp: schedules_ok_def distinct_map_filter)

lemma schedules_ok_Map_set:
  assumes "schedules_ok both ss c" and "both \<longrightarrow> schedule_id s = k" and "k < c'" and "c \<le> c'"
  shows "schedules_ok both (Map_set k s ss) c'"
proof -
  from assms(1) have d: "distinct (map fst ss)" by (simp add: schedules_ok_def)
  have "distinct (map fst (Map_set k s ss))"
    using d by (simp add: keys_Map_set)
  moreover have "\<forall>p \<in> set (Map_set k s ss).
      fst p < c' \<and> (both \<longrightarrow> schedule_id (snd p) = fst p)"
    using assms by (auto simp: set_Map_set [OF d] schedules_ok_def)
  ultimately show ?thesis by (simp add: schedules_ok_def)
qed

lemma fresh_key: "schedules_ok both ss c \<Longrightarrow> c \<notin> fst ` set ss"
  by (auto simp: schedules_ok_def)

lemma set_Map_set_fresh:
  "schedules_ok both ss c \<Longrightarrow> set (Map_set c s ss) = insert (c, s) (set ss)"
  by (simp add: Map_set_fresh [OF fresh_key])

subsection \<open>Which entries the schedules name\<close>

lemma named_find: "(getSchedulesByEntryId S i = None) = (\<not> named (schedules S) i)"
  by (simp add: getSchedulesByEntryId_def Array_find_def find_None_iff Map_values_def
      named_def)

lemma named_subset: "set ss' \<subseteq> set ss \<Longrightarrow> named ss' x \<Longrightarrow> named ss x"
  unfolding named_def by blast

lemma named_insert:
  "set ss' = insert (c, s) (set ss) \<Longrightarrow>
     named ss' x = (schedule_entryId s = Some x \<or> named ss x)"
  unfolding named_def by simp

lemma image_proj:
  assumes "map f ss' = map f ss"
  shows "f ` set ss' = f ` set ss"
proof -
  from assms have "set (map f ss') = set (map f ss)" by (simp only:)
  then show ?thesis by (simp only: set_map)
qed

lemma named_image: "named ss x = (Some x \<in> (\<lambda>p. schedule_entryId (snd p)) ` set ss)"
  unfolding named_def by force

lemma named_proj:
  assumes "map (\<lambda>p. schedule_entryId (snd p)) ss' = map (\<lambda>p. schedule_entryId (snd p)) ss"
  shows "named ss' x = named ss x"
  unfolding named_image using image_proj [OF assms] by (simp only:)

lemma refs_ok_image:
  "refs_ok ss c = (\<forall>x \<in> (\<lambda>p. schedule_entryId (snd p)) ` set ss. \<forall>e. x = Some e \<longrightarrow> e < c)"
  unfolding refs_ok_def by simp

lemma refs_ok_proj:
  assumes "map (\<lambda>p. schedule_entryId (snd p)) ss' = map (\<lambda>p. schedule_entryId (snd p)) ss"
  shows "refs_ok ss' c = refs_ok ss c"
  unfolding refs_ok_image using image_proj [OF assms] by (simp only:)

lemma refs_ok_subset: "set ss' \<subseteq> set ss \<Longrightarrow> c \<le> c' \<Longrightarrow> refs_ok ss c \<Longrightarrow> refs_ok ss' c'"
  unfolding refs_ok_def by fastforce

lemma refs_ok_named: "refs_ok ss c \<Longrightarrow> named ss x \<Longrightarrow> x < c"
  unfolding refs_ok_def named_def by blast

lemma refs_ok_insert:
  assumes "refs_ok ss c" and "set ss' = insert (k, s) (set ss)"
    and "\<forall>e. schedule_entryId s = Some e \<longrightarrow> e < c"
  shows "refs_ok ss' c"
  using assms unfolding refs_ok_def by auto

subsection \<open>One schedule for a stored entry\<close>

lemma singleD:
  assumes "single_schedule es ss" and "p \<in> set ss" and "q \<in> set ss"
    and "e \<in> fst ` set es"
    and "schedule_entryId (snd p) = Some e" and "schedule_entryId (snd q) = Some e"
  shows "p = q"
proof -
  from assms(1,2) have "\<forall>q \<in> set ss. \<forall>e \<in> fst ` set es.
      schedule_entryId (snd p) = Some e \<longrightarrow> schedule_entryId (snd q) = Some e \<longrightarrow> p = q"
    unfolding single_schedule_def by (rule bspec)
  from this assms(3) have "\<forall>e \<in> fst ` set es.
      schedule_entryId (snd p) = Some e \<longrightarrow> schedule_entryId (snd q) = Some e \<longrightarrow> p = q"
    by (rule bspec)
  from this assms(4) have
    "schedule_entryId (snd p) = Some e \<longrightarrow> schedule_entryId (snd q) = Some e \<longrightarrow> p = q"
    by (rule bspec)
  with assms(5,6) show ?thesis by simp
qed

lemma single_subset:
  assumes "single_schedule es ss" and "set ss' \<subseteq> set ss" and "fst ` set es' \<subseteq> fst ` set es"
  shows "single_schedule es' ss'"
  unfolding single_schedule_def
proof (intro ballI impI)
  fix p q e
  assume "p \<in> set ss'" and "q \<in> set ss'" and "e \<in> fst ` set es'"
    and pq: "schedule_entryId (snd p) = Some e" "schedule_entryId (snd q) = Some e"
  with assms(2,3) have "p \<in> set ss" "q \<in> set ss" "e \<in> fst ` set es" by blast+
  with assms(1) show "p = q" using pq by (rule singleD)
qed

lemma single_keys:
  "fst ` set es' = fst ` set es \<Longrightarrow> single_schedule es' ss = single_schedule es ss"
  unfolding single_schedule_def by simp

lemma single_insert:
  assumes "single_schedule es ss" and "set ss' = insert (c, s) (set ss)"
    and "\<forall>e \<in> fst ` set es. schedule_entryId s = Some e \<longrightarrow> \<not> named ss e"
  shows "single_schedule es ss'"
  unfolding single_schedule_def
proof (intro ballI impI)
  fix p q e
  assume p: "p \<in> set ss'" and q: "q \<in> set ss'" and e: "e \<in> fst ` set es"
    and pe: "schedule_entryId (snd p) = Some e" and qe: "schedule_entryId (snd q) = Some e"
  from assms(3) e have new: "schedule_entryId s = Some e \<Longrightarrow> \<not> named ss e" by blast
  show "p = q"
  proof (cases "p = (c, s)")
    case True
    with pe new have n: "\<not> named ss e" by simp
    have "q = (c, s)"
    proof (rule ccontr)
      assume "q \<noteq> (c, s)"
      with q assms(2) have "q \<in> set ss" by simp
      with qe have "named ss e" unfolding named_def by blast
      with n show False by simp
    qed
    with True show ?thesis by simp
  next
    case False
    with p assms(2) have pin: "p \<in> set ss" by simp
    with pe have ne: "named ss e" unfolding named_def by blast
    have "q \<noteq> (c, s)"
    proof
      assume "q = (c, s)"
      with qe new ne show False by simp
    qed
    with q assms(2) have "q \<in> set ss" by simp
    with assms(1) pin show ?thesis using e pe qe by (rule singleD)
  qed
qed

lemma single_replace:
  assumes "single_schedule es ss" and "distinct (map fst ss)" and "map_of ss k = Some s0"
    and "schedule_entryId s = schedule_entryId s0"
  shows "single_schedule es (Map_set k s ss)"
  unfolding single_schedule_def set_Map_set [OF assms(2)]
proof (intro ballI impI)
  fix p q e
  let ?new = "insert (k, s) {p \<in> set ss. fst p \<noteq> k}"
  assume p: "p \<in> ?new" and q: "q \<in> ?new" and e: "e \<in> fst ` set es"
    and pe: "schedule_entryId (snd p) = Some e" and qe: "schedule_entryId (snd q) = Some e"
  from assms(3) have old: "(k, s0) \<in> set ss" by (rule map_of_SomeD)
  define orig where "orig = (\<lambda>r. if r = (k, s) then (k, s0) else r)"
  have bp: "orig p \<in> set ss" "schedule_entryId (snd (orig p)) = Some e"
    using p pe old assms(4) by (auto simp: orig_def)
  have bq: "orig q \<in> set ss" "schedule_entryId (snd (orig q)) = Some e"
    using q qe old assms(4) by (auto simp: orig_def)
  from assms(1) bp(1) bq(1) e bp(2) bq(2) have eq: "orig p = orig q" by (rule singleD)
  show "p = q"
  proof (cases "p = (k, s)")
    case True
    with eq have "orig q = (k, s0)" by (simp add: orig_def)
    then have "fst q = k" by (auto simp: orig_def split: if_splits)
    with q have "q = (k, s)" by auto
    with True show ?thesis by simp
  next
    case False
    with p have "fst p \<noteq> k" by auto
    with eq False have "fst (orig q) \<noteq> k" by (auto simp: orig_def)
    then have "q \<noteq> (k, s)" by (auto simp: orig_def)
    with eq False show ?thesis by (simp add: orig_def)
  qed
qed

subsection \<open>Visibility in step\<close>

lemma visibility_sync_iff: "visibility_sync S = sync True (entries S) (schedules S)"
proof -
  have "named (schedules S) x =
      (\<exists>s \<in> set (Map_values (schedules S)). schedule_entryId s = Some x)" for x
    by (simp add: named_def Map_values_def)
  then show ?thesis
    unfolding visibility_sync_def sync_def Map_values_def by auto
qed

lemma sync_at:
  assumes "sync both es ss" and "(k, e) \<in> set es"
  shows "(named ss (entry_id e) \<longrightarrow> entry_visibility e = Some ''scheduled'') \<and>
         (both \<longrightarrow> entry_visibility e = Some ''scheduled'' \<longrightarrow> named ss (entry_id e))"
proof -
  from assms have
    "(named ss (entry_id (snd (k, e))) \<longrightarrow> entry_visibility (snd (k, e)) = Some ''scheduled'') \<and>
     (both \<longrightarrow> entry_visibility (snd (k, e)) = Some ''scheduled'' \<longrightarrow>
        named ss (entry_id (snd (k, e))))"
    unfolding sync_def by (rule bspec)
  then show ?thesis by simp
qed

lemma sync_Map_set_entry:
  assumes "sync both es ss" and "distinct (map fst es)"
    and "named ss (entry_id e) \<longrightarrow> entry_visibility e = Some ''scheduled''"
    and "both \<longrightarrow> entry_visibility e = Some ''scheduled'' \<longrightarrow> named ss (entry_id e)"
  shows "sync both (Map_set k e es) ss"
  using assms(1,3,4) by (auto simp: sync_def set_Map_set [OF assms(2)])

lemma sync_named:
  "(\<And>x. named ss' x = named ss x) \<Longrightarrow> sync both es ss' = sync both es ss"
  unfolding sync_def by simp

lemma single_new_key:
  assumes "single_schedule es ss" and "\<not> named ss c"
    and "fst ` set es' = insert c (fst ` set es)"
  shows "single_schedule es' ss"
  unfolding single_schedule_def
proof (intro ballI impI)
  fix p q e
  assume p: "p \<in> set ss" and q: "q \<in> set ss" and e: "e \<in> fst ` set es'"
    and pe: "schedule_entryId (snd p) = Some e" and qe: "schedule_entryId (snd q) = Some e"
  from p pe have "named ss e" unfolding named_def by blast
  with assms(2) have "e \<noteq> c" by blast
  with e assms(3) have "e \<in> fst ` set es" by simp
  with assms(1) p q show "p = q" using pe qe by (rule singleD)
qed

lemma coordinatedD:
  assumes "coordinated both S"
  shows "entries_ok (entries S) (entryIdCounter S)"
    and "schedules_ok both (schedules S) (scheduleIdCounter S)"
    and "refs_ok (schedules S) (entryIdCounter S)"
    and "single_schedule (entries S) (schedules S)"
    and "sync both (entries S) (schedules S)"
  using assms by (simp_all add: coordinated_def)

lemma keys_replace:
  "(k, v0) \<in> set m \<Longrightarrow> fst ` set (Map_set k v m) = fst ` set m"
  by (simp add: keys_set_Map_set insert_absorb key_in)

subsection \<open>createEntry\<close>

lemma coordinated_createEntry:
  assumes "coordinated both S" and "both \<longrightarrow> ie_visibility ins \<noteq> Some ''scheduled''"
  shows "coordinated both (snd (createEntry now ins S))"
proof -
  define c where "c = entryIdCounter S"
  define e where "e = fst (createEntry now ins S)"
  note inv = coordinatedD [OF assms(1), folded c_def]
  have S': "snd (createEntry now ins S) =
      S\<lparr>entryIdCounter := c + 1, entries := Map_set c e (entries S)\<rparr>"
    by (simp add: createEntry_def Let_def c_def e_def)
  have id: "entry_id e = c" by (simp add: e_def c_def createEntry_def Let_def)
  have vis: "both \<longrightarrow> entry_visibility e \<noteq> Some ''scheduled''"
    using assms(2) by (auto simp: e_def createEntry_def Let_def str_or_def split: option.splits)
  have none: "\<not> named (schedules S) c"
    using refs_ok_named [OF inv(3)] by force
  have 1: "entries_ok (Map_set c e (entries S)) (c + 1)"
    using inv(1) id by (rule entries_ok_Map_set) simp_all
  have 3: "refs_ok (schedules S) (c + 1)"
    using _ _ inv(3) by (rule refs_ok_subset) simp_all
  have 4: "single_schedule (Map_set c e (entries S)) (schedules S)"
    using inv(4) none by (rule single_new_key) (rule keys_set_Map_set)
  have 5: "sync both (Map_set c e (entries S)) (schedules S)"
    using inv(5) inv(1) none vis by (intro sync_Map_set_entry) (simp_all add: entries_ok_def id)
  show ?thesis
    unfolding S' using 1 inv(2) 3 4 5 by (simp add: coordinated_def)
qed

subsection \<open>updateEntry\<close>

lemma snd_updateEntry:
  "snd (updateEntry i p S) =
     (case map_of (entries S) i of
        None \<Rightarrow> S
      | Some e \<Rightarrow> S\<lparr>entries := Map_set i (mergeEntry e p) (entries S)\<rparr>)"
  by (simp add: updateEntry_def Map_get_def Let_def split: option.splits)

lemma merged_entry:
  "entry_id (mergeEntry e p) = spread (entry_id e) (pe_id p) \<and>
   entry_visibility (mergeEntry e p) = spread (entry_visibility e) (pe_visibility p)"
  by (simp add: mergeEntry_def)

lemma coordinated_replace_entry:
  assumes "coordinated both S" and "map_of (entries S) i = Some e"
    and "entry_id e' = i"
    and "named (schedules S) i \<longrightarrow> entry_visibility e' = Some ''scheduled''"
    and "both \<longrightarrow> entry_visibility e' = Some ''scheduled'' \<longrightarrow> named (schedules S) i"
  shows "coordinated both (S\<lparr>entries := Map_set i e' (entries S)\<rparr>)"
proof -
  note inv = coordinatedD [OF assms(1)]
  from entry_at [OF inv(1) assms(2)] have at: "i < entryIdCounter S"
    "(i, e) \<in> set (entries S)" by simp_all
  have 1: "entries_ok (Map_set i e' (entries S)) (entryIdCounter S)"
    using inv(1) assms(3) at(1) by (rule entries_ok_Map_set) simp
  have 4: "single_schedule (Map_set i e' (entries S)) (schedules S)"
    using inv(4) by (simp add: single_keys [OF keys_replace [OF at(2)]])
  have 5: "sync both (Map_set i e' (entries S)) (schedules S)"
    using inv(5) inv(1) assms(4,5)
    by (intro sync_Map_set_entry) (simp_all add: entries_ok_def assms(3))
  show ?thesis using 1 inv(2,3) 4 5 by (simp add: coordinated_def)
qed

lemma coordinated_updateEntry:
  assumes "coordinated both S" and "admissible both (UpdateEntry i p) S"
  shows "coordinated both (snd (updateEntry i p S))"
proof (cases "map_of (entries S) i")
  case None
  with assms(1) show ?thesis by (simp add: snd_updateEntry)
next
  case (Some e)
  note inv = coordinatedD [OF assms(1)]
  from entry_at [OF inv(1) Some] have at: "entry_id e = i" "(i, e) \<in> set (entries S)"
    by simp_all
  from Some have get: "getEntryById S i = Some e" by (simp add: getEntryById_def Map_get_def)
  from assms(2) get at(1) have idp: "pe_id p = None \<or> pe_id p = Some i"
    and visp: "\<And>v. pe_visibility p = Some v \<Longrightarrow>
      (named (schedules S) i \<longrightarrow> v = Some ''scheduled'') \<and>
      (both \<longrightarrow> v = Some ''scheduled'' \<longrightarrow> named (schedules S) i)"
    by (auto simp: named_find split: option.splits)
  define e' where "e' = mergeEntry e p"
  have id: "entry_id e' = i"
    using idp at(1) merged_entry [of e p] by (auto simp: e'_def spread_def)
  have vis: "(named (schedules S) i \<longrightarrow> entry_visibility e' = Some ''scheduled'') \<and>
      (both \<longrightarrow> entry_visibility e' = Some ''scheduled'' \<longrightarrow> named (schedules S) i)"
  proof (cases "pe_visibility p")
    case None
    then have "entry_visibility e' = entry_visibility e"
      using merged_entry [of e p] by (simp add: e'_def spread_def)
    with sync_at [OF inv(5) at(2)] at(1) show ?thesis by simp
  next
    case (Some v)
    then have "entry_visibility e' = v"
      using merged_entry [of e p] by (simp add: e'_def spread_def)
    with visp [OF Some] show ?thesis by simp
  qed
  have "coordinated both (S\<lparr>entries := Map_set i e' (entries S)\<rparr>)"
    using assms(1) Some id vis by (intro coordinated_replace_entry) simp_all
  with Some show ?thesis by (simp add: snd_updateEntry e'_def)
qed

subsection \<open>deleteEntry\<close>

lemma coordinated_deleteEntry:
  assumes "coordinated both S"
  shows "coordinated both (snd (deleteEntry i S))"
proof -
  note inv = coordinatedD [OF assms]
  define ids where
    "ids = schedule_id ` {s \<in> snd ` set (schedules S). schedule_entryId s = Some i}"
  define es where "es = filter (\<lambda>p. fst p \<noteq> i) (entries S)"
  define ss where "ss = filter (\<lambda>p. fst p \<notin> ids) (schedules S)"
  have S': "snd (deleteEntry i S) = S\<lparr>schedules := ss, entries := es\<rparr>"
    by (simp add: snd_deleteEntry es_def ss_def ids_def)
  have sub: "set ss \<subseteq> set (schedules S)" "fst ` set es \<subseteq> fst ` set (entries S)"
    by (auto simp: ss_def es_def)
  have 1: "entries_ok es (entryIdCounter S)"
    unfolding es_def using inv(1) by (rule entries_ok_filter)
  have 2: "schedules_ok both ss (scheduleIdCounter S)"
    unfolding ss_def using inv(2) by (rule schedules_ok_filter)
  have 3: "refs_ok ss (entryIdCounter S)"
    using sub(1) _ inv(3) by (rule refs_ok_subset) simp
  have 4: "single_schedule es ss"
    using inv(4) sub by (rule single_subset)
  have 5: "sync both es ss"
    unfolding sync_def
  proof (intro ballI conjI impI)
    fix p
    assume "p \<in> set es"
    then have p: "p \<in> set (entries S)" "fst p \<noteq> i" by (simp_all add: es_def)
    then have pin: "(fst p, snd p) \<in> set (entries S)" by simp
    from inv(1) p(1) have id: "entry_id (snd p) = fst p" by (simp add: entries_ok_def)
    {
      assume "named ss (entry_id (snd p))"
      then have "named (schedules S) (entry_id (snd p))" using sub(1) by (rule named_subset [rotated])
      with sync_at [OF inv(5) pin] show "entry_visibility (snd p) = Some ''scheduled''" by simp
    }
    {
      assume both: both and "entry_visibility (snd p) = Some ''scheduled''"
      with sync_at [OF inv(5) pin] id have "named (schedules S) (fst p)" by simp
      then obtain q where q: "q \<in> set (schedules S)" "schedule_entryId (snd q) = Some (fst p)"
        unfolding named_def by blast
      have "fst q \<notin> ids"
      proof
        assume "fst q \<in> ids"
        then obtain r where r: "r \<in> set (schedules S)" "schedule_entryId (snd r) = Some i"
          "fst q = schedule_id (snd r)" unfolding ids_def by auto
        from inv(2) both r(1) have "schedule_id (snd r) = fst r" by (simp add: schedules_ok_def)
        with r(3) have "fst r = fst q" by simp
        with inv(2) r(1) q(1) have "r = q" by (intro same_key) (simp_all add: schedules_ok_def)
        with r(2) q(2) p(2) show False by simp
      qed
      with q(1) have "q \<in> set ss" by (simp add: ss_def)
      with q(2) id show "named ss (entry_id (snd p))" unfolding named_def by auto
    }
  qed
  show ?thesis
    unfolding S' using 1 2 3 4 5 by (simp add: coordinated_def)
qed

subsection \<open>createSchedule\<close>

lemma visibility_merge:
  "entry_id (mergeEntry e (visibilityPatch v)) = entry_id e \<and>
   entry_visibility (mergeEntry e (visibilityPatch v)) = Some v"
  by (simp add: mergeEntry_def visibilityPatch_def noEntryPatch_def spread_def)

lemma fst_createSchedule:
  "schedule_id (fst (createSchedule now ins S)) = scheduleIdCounter S \<and>
   schedule_entryId (fst (createSchedule now ins S)) = is_entryId ins"
  by (simp add: createSchedule_def Let_def split: option.splits)

lemma snd_createSchedule:
  "snd (createSchedule now ins S) =
     (case (case is_entryId ins of None \<Rightarrow> None | Some eid \<Rightarrow> map_of (entries S) eid) of
        None \<Rightarrow>
          S\<lparr>scheduleIdCounter := scheduleIdCounter S + 1,
            schedules := Map_set (scheduleIdCounter S) (fst (createSchedule now ins S))
              (schedules S)\<rparr>
      | Some e \<Rightarrow>
          snd (updateEntry (entry_id e) (visibilityPatch ''scheduled'')
            (S\<lparr>scheduleIdCounter := scheduleIdCounter S + 1,
               schedules := Map_set (scheduleIdCounter S) (fst (createSchedule now ins S))
                 (schedules S)\<rparr>)))"
  by (simp add: createSchedule_def Let_def getEntryById_def Map_get_def split: option.splits)

lemma coordinated_add_schedule:
  assumes "coordinated both S" and "schedule_id s = scheduleIdCounter S"
    and "\<forall>e. schedule_entryId s = Some e \<longrightarrow>
           e < entryIdCounter S \<and> map_of (entries S) e = None"
  shows "coordinated both
     (S\<lparr>scheduleIdCounter := scheduleIdCounter S + 1,
        schedules := Map_set (scheduleIdCounter S) s (schedules S)\<rparr>)"
proof -
  define c where "c = scheduleIdCounter S"
  note inv = coordinatedD [OF assms(1), folded c_def]
  have set_ss: "set (Map_set c s (schedules S)) = insert (c, s) (set (schedules S))"
    using inv(2) by (rule set_Map_set_fresh)
  have absent: "e \<in> fst ` set (entries S) \<Longrightarrow> schedule_entryId s \<noteq> Some e" for e
    using assms(3) by (auto simp: map_of_keys)
  have 2: "schedules_ok both (Map_set c s (schedules S)) (c + 1)"
    using inv(2) by (rule schedules_ok_Map_set) (simp_all add: assms(2) c_def)
  have 3: "refs_ok (Map_set c s (schedules S)) (entryIdCounter S)"
    using inv(3) set_ss by (rule refs_ok_insert) (simp add: assms(3))
  have 4: "single_schedule (entries S) (Map_set c s (schedules S))"
    using inv(4) set_ss by (rule single_insert) (simp add: absent)
  have 5: "sync both (entries S) (Map_set c s (schedules S))"
    unfolding sync_def
  proof
    fix p
    assume p: "p \<in> set (entries S)"
    then have pin: "(fst p, snd p) \<in> set (entries S)" by simp
    from inv(1) p have "entry_id (snd p) = fst p" by (simp add: entries_ok_def)
    with absent [OF key_in [OF pin]]
    have "named (Map_set c s (schedules S)) (entry_id (snd p)) =
        named (schedules S) (entry_id (snd p))"
      by (simp add: named_insert [OF set_ss])
    with sync_at [OF inv(5) pin]
    show "(named (Map_set c s (schedules S)) (entry_id (snd p)) \<longrightarrow>
          entry_visibility (snd p) = Some ''scheduled'') \<and>
        (both \<longrightarrow> entry_visibility (snd p) = Some ''scheduled'' \<longrightarrow>
          named (Map_set c s (schedules S)) (entry_id (snd p)))"
      by simp
  qed
  show ?thesis
    using inv(1) 2 3 4 5 by (simp add: coordinated_def c_def)
qed

lemma coordinated_schedule_entry:
  assumes "coordinated both S" and "schedule_id s = scheduleIdCounter S"
    and "schedule_entryId s = Some eid" and "map_of (entries S) eid = Some e"
    and "\<not> named (schedules S) eid"
    and "entry_id e' = eid" and "entry_visibility e' = Some ''scheduled''"
  shows "coordinated both
     (S\<lparr>scheduleIdCounter := scheduleIdCounter S + 1,
        schedules := Map_set (scheduleIdCounter S) s (schedules S),
        entries := Map_set eid e' (entries S)\<rparr>)"
proof -
  define c where "c = scheduleIdCounter S"
  note inv = coordinatedD [OF assms(1), folded c_def]
  from entry_at [OF inv(1) assms(4)] have at: "eid < entryIdCounter S"
    "(eid, e) \<in> set (entries S)" by simp_all
  have de: "distinct (map fst (entries S))" using inv(1) by (simp add: entries_ok_def)
  have set_ss: "set (Map_set c s (schedules S)) = insert (c, s) (set (schedules S))"
    using inv(2) by (rule set_Map_set_fresh)
  have 1: "entries_ok (Map_set eid e' (entries S)) (entryIdCounter S)"
    using inv(1) assms(6) at(1) by (rule entries_ok_Map_set) simp
  have 2: "schedules_ok both (Map_set c s (schedules S)) (c + 1)"
    using inv(2) by (rule schedules_ok_Map_set) (simp_all add: assms(2) c_def)
  have 3: "refs_ok (Map_set c s (schedules S)) (entryIdCounter S)"
    using inv(3) set_ss by (rule refs_ok_insert) (simp add: assms(3) at(1))
  have "single_schedule (entries S) (Map_set c s (schedules S))"
    using inv(4) set_ss by (rule single_insert) (simp add: assms(3,5))
  then have 4: "single_schedule (Map_set eid e' (entries S)) (Map_set c s (schedules S))"
    by (simp add: single_keys [OF keys_replace [OF at(2)]])
  have 5: "sync both (Map_set eid e' (entries S)) (Map_set c s (schedules S))"
    unfolding sync_def set_Map_set [OF de]
  proof
    fix p
    assume "p \<in> insert (eid, e') {p \<in> set (entries S). fst p \<noteq> eid}"
    then show "(named (Map_set c s (schedules S)) (entry_id (snd p)) \<longrightarrow>
          entry_visibility (snd p) = Some ''scheduled'') \<and>
        (both \<longrightarrow> entry_visibility (snd p) = Some ''scheduled'' \<longrightarrow>
          named (Map_set c s (schedules S)) (entry_id (snd p)))"
    proof
      assume "p = (eid, e')"
      then show ?thesis by (simp add: assms(3,6,7) named_insert [OF set_ss])
    next
      assume "p \<in> {p \<in> set (entries S). fst p \<noteq> eid}"
      then have p: "p \<in> set (entries S)" "fst p \<noteq> eid" by simp_all
      then have pin: "(fst p, snd p) \<in> set (entries S)" by simp
      from inv(1) p have "entry_id (snd p) \<noteq> eid" by (simp add: entries_ok_def)
      then have "named (Map_set c s (schedules S)) (entry_id (snd p)) =
          named (schedules S) (entry_id (snd p))"
        by (auto simp: named_insert [OF set_ss] assms(3))
      with sync_at [OF inv(5) pin] show ?thesis by simp
    qed
  qed
  show ?thesis
    using 1 2 3 4 5 by (simp add: coordinated_def c_def)
qed

lemma coordinated_createSchedule:
  assumes "coordinated both S" and "admissible both (CreateSchedule now ins) S"
  shows "coordinated both (snd (createSchedule now ins S))"
proof -
  define s where "s = fst (createSchedule now ins S)"
  note inv = coordinatedD [OF assms(1)]
  have sid: "schedule_id s = scheduleIdCounter S" and sref: "schedule_entryId s = is_entryId ins"
    using fst_createSchedule [of now ins S] by (simp_all add: s_def)
  show ?thesis
  proof (cases "case is_entryId ins of None \<Rightarrow> None | Some eid \<Rightarrow> map_of (entries S) eid")
    case None
    have "\<forall>e. schedule_entryId s = Some e \<longrightarrow>
        e < entryIdCounter S \<and> map_of (entries S) e = None"
      using None assms(2) sref
      by (auto simp: freeEntryId_def getEntryById_def Map_get_def split: option.splits)
    with assms(1) sid have "coordinated both
       (S\<lparr>scheduleIdCounter := scheduleIdCounter S + 1,
          schedules := Map_set (scheduleIdCounter S) s (schedules S)\<rparr>)"
      by (rule coordinated_add_schedule)
    with None show ?thesis by (simp add: snd_createSchedule s_def)
  next
    case (Some e)
    then obtain eid where eid: "is_entryId ins = Some eid" "map_of (entries S) eid = Some e"
      by (auto split: option.splits)
    from entry_at [OF inv(1) eid(2)] have id: "entry_id e = eid" by simp
    from assms(2) eid have free: "\<not> named (schedules S) eid"
      by (simp add: freeEntryId_def getEntryById_def Map_get_def named_find [symmetric])
    define e' where "e' = mergeEntry e (visibilityPatch ''scheduled'')"
    have e': "entry_id e' = eid" "entry_visibility e' = Some ''scheduled''"
      using visibility_merge [of e "''scheduled''"] id by (simp_all add: e'_def)
    have "coordinated both
       (S\<lparr>scheduleIdCounter := scheduleIdCounter S + 1,
          schedules := Map_set (scheduleIdCounter S) s (schedules S),
          entries := Map_set eid e' (entries S)\<rparr>)"
      using assms(1) sid _ eid(2) free e'
      by (rule coordinated_schedule_entry) (simp add: sref eid(1))
    with Some eid id show ?thesis
      by (simp add: snd_createSchedule snd_updateEntry s_def e'_def)
  qed
qed

subsection \<open>updateSchedule\<close>

lemma snd_updateSchedule:
  "snd (updateSchedule i p S) =
     (case map_of (schedules S) i of
        None \<Rightarrow> S
      | Some s \<Rightarrow> S\<lparr>schedules := Map_set i (mergeSchedule s p) (schedules S)\<rparr>)"
  by (simp add: updateSchedule_def Map_get_def Let_def split: option.splits)

lemma coordinated_keep_schedule:
  assumes "coordinated both S" and "map_of (schedules S) i = Some s"
    and "both \<longrightarrow> schedule_id s' = i" and "schedule_entryId s' = schedule_entryId s"
  shows "coordinated both (S\<lparr>schedules := Map_set i s' (schedules S)\<rparr>)"
proof -
  note inv = coordinatedD [OF assms(1)]
  from schedule_at [OF inv(2) assms(2)] have at: "i < scheduleIdCounter S" by simp
  have d: "distinct (map fst (schedules S))" using inv(2) by (simp add: schedules_ok_def)
  have proj: "map (\<lambda>p. schedule_entryId (snd p)) (Map_set i s' (schedules S)) =
      map (\<lambda>p. schedule_entryId (snd p)) (schedules S)"
    using assms(2,4) by (rule proj_Map_set)
  have 2: "schedules_ok both (Map_set i s' (schedules S)) (scheduleIdCounter S)"
    using inv(2) assms(3) at by (rule schedules_ok_Map_set) simp
  have 3: "refs_ok (Map_set i s' (schedules S)) (entryIdCounter S)"
    using inv(3) by (simp add: refs_ok_proj [OF proj])
  have 4: "single_schedule (entries S) (Map_set i s' (schedules S))"
    using inv(4) d assms(2,4) by (rule single_replace)
  have 5: "sync both (entries S) (Map_set i s' (schedules S))"
    using inv(5) by (simp add: sync_named [OF named_proj [OF proj]])
  show ?thesis
    using inv(1) 2 3 4 5 by (simp add: coordinated_def)
qed

lemma coordinated_move_schedule:
  assumes "coordinated both S" and "map_of (schedules S) i = Some s"
    and "both \<longrightarrow> schedule_id s' = i"
    and free: "\<forall>e. schedule_entryId s' = Some e \<longrightarrow>
        (case map_of (entries S) e of
           None \<Rightarrow> e < entryIdCounter S
         | Some b \<Rightarrow> \<not> named (schedules S) e \<and> entry_visibility b = Some ''scheduled'')"
    and leave: "both \<longrightarrow> (\<forall>e. schedule_entryId s = Some e \<longrightarrow> map_of (entries S) e = None)"
  shows "coordinated both (S\<lparr>schedules := Map_set i s' (schedules S)\<rparr>)"
proof -
  note inv = coordinatedD [OF assms(1)]
  from schedule_at [OF inv(2) assms(2)] have at: "i < scheduleIdCounter S"
    "(i, s) \<in> set (schedules S)" by simp_all
  have d: "distinct (map fst (schedules S))" using inv(2) by (simp add: schedules_ok_def)
  define rest where "rest = filter (\<lambda>p. fst p \<noteq> i) (schedules S)"
  have sub: "set rest \<subseteq> set (schedules S)" by (auto simp: rest_def)
  have set_ss: "set (Map_set i s' (schedules S)) = insert (i, s') (set rest)"
    by (simp add: set_Map_set [OF d] rest_def)
  have stored: "\<not> named (schedules S) e \<and> entry_visibility (snd p) = Some ''scheduled''"
    if "p \<in> set (entries S)" and "schedule_entryId s' = Some (fst p)" and "e = fst p" for p e
  proof -
    from inv(1) that(1) have "map_of (entries S) (fst p) = Some (snd p)"
      by (simp add: entries_ok_def)
    with free that(2,3) show ?thesis by fastforce
  qed
  have 2: "schedules_ok both (Map_set i s' (schedules S)) (scheduleIdCounter S)"
    using inv(2) assms(3) at(1) by (rule schedules_ok_Map_set) simp
  have below: "\<forall>e. schedule_entryId s' = Some e \<longrightarrow> e < entryIdCounter S"
  proof (intro allI impI)
    fix e
    assume e: "schedule_entryId s' = Some e"
    show "e < entryIdCounter S"
    proof (cases "map_of (entries S) e")
      case None
      with free e show ?thesis by fastforce
    next
      case (Some b)
      with entry_at [OF inv(1)] show ?thesis by blast
    qed
  qed
  have "refs_ok rest (entryIdCounter S)"
    using sub _ inv(3) by (rule refs_ok_subset) simp
  then have 3: "refs_ok (Map_set i s' (schedules S)) (entryIdCounter S)"
    using set_ss below by (rule refs_ok_insert)
  have "single_schedule (entries S) rest"
    using inv(4) sub by (rule single_subset) simp
  then have 4: "single_schedule (entries S) (Map_set i s' (schedules S))"
    using set_ss
  proof (rule single_insert)
    show "\<forall>e \<in> fst ` set (entries S). schedule_entryId s' = Some e \<longrightarrow> \<not> named rest e"
    proof (intro ballI impI)
      fix e
      assume "e \<in> fst ` set (entries S)" and n: "schedule_entryId s' = Some e"
      then obtain p where "p \<in> set (entries S)" "e = fst p" by auto
      with stored n have "\<not> named (schedules S) e" by blast
      then show "\<not> named rest e" using named_subset [OF sub] by blast
    qed
  qed
  have 5: "sync both (entries S) (Map_set i s' (schedules S))"
    unfolding sync_def
  proof (intro ballI conjI impI)
    fix p
    assume p: "p \<in> set (entries S)"
    then have pin: "(fst p, snd p) \<in> set (entries S)" by simp
    from inv(1) p have id: "entry_id (snd p) = fst p" by (simp add: entries_ok_def)
    {
      assume "named (Map_set i s' (schedules S)) (entry_id (snd p))"
      then have "schedule_entryId s' = Some (fst p) \<or> named rest (fst p)"
        by (simp add: named_insert [OF set_ss] id)
      then show "entry_visibility (snd p) = Some ''scheduled''"
      proof
        assume "schedule_entryId s' = Some (fst p)"
        with stored [OF p] show ?thesis by simp
      next
        assume "named rest (fst p)"
        then have "named (schedules S) (fst p)" using sub by (rule named_subset [rotated])
        with sync_at [OF inv(5) pin] id show ?thesis by simp
      qed
    }
    {
      assume both: both and "entry_visibility (snd p) = Some ''scheduled''"
      with sync_at [OF inv(5) pin] id have "named (schedules S) (fst p)" by simp
      then obtain q where q: "q \<in> set (schedules S)" "schedule_entryId (snd q) = Some (fst p)"
        unfolding named_def by blast
      have "fst q \<noteq> i"
      proof
        assume "fst q = i"
        with d q(1) at(2) have "q = (i, s)" by (intro same_key) simp_all
        with q(2) leave both have "map_of (entries S) (fst p) = None" by simp
        with key_in [OF pin] show False by (simp add: map_of_keys)
      qed
      with q(1) have "q \<in> set rest" by (simp add: rest_def)
      with q(2) have "named rest (fst p)" unfolding named_def by blast
      then show "named (Map_set i s' (schedules S)) (entry_id (snd p))"
        by (simp add: named_insert [OF set_ss] id)
    }
  qed
  show ?thesis
    using inv(1) 2 3 4 5 by (simp add: coordinated_def)
qed

lemma coordinated_updateSchedule:
  assumes "coordinated both S" and "admissible both (UpdateSchedule i p) S"
  shows "coordinated both (snd (updateSchedule i p S))"
proof (cases "map_of (schedules S) i")
  case None
  with assms(1) show ?thesis by (simp add: snd_updateSchedule)
next
  case (Some s)
  define s' where "s' = mergeSchedule s p"
  note inv = coordinatedD [OF assms(1)]
  from schedule_at [OF inv(2) Some] have at: "both \<longrightarrow> schedule_id s = i" by simp
  from Some have get: "getScheduleById S i = Some s"
    by (simp add: getScheduleById_def Map_get_def)
  with assms(2) have "both \<longrightarrow> ps_id p = None \<or> ps_id p = Some (schedule_id s)"
    by simp
  then have id: "both \<longrightarrow> schedule_id s' = i"
    using at by (auto simp: s'_def mergeSchedule_def spread_def)
  have ref: "schedule_entryId s' = spread (schedule_entryId s) (ps_entryId p)"
    by (simp add: s'_def mergeSchedule_def)
  have "coordinated both (S\<lparr>schedules := Map_set i s' (schedules S)\<rparr>)"
  proof (cases "schedule_entryId s' = schedule_entryId s")
    case True
    with assms(1) Some id show ?thesis by (rule coordinated_keep_schedule)
  next
    case False
    with ref obtain x where x: "ps_entryId p = Some x" "schedule_entryId s' = x"
      "x \<noteq> schedule_entryId s"
      by (cases "ps_entryId p") (simp_all add: spread_def)
    with assms(2) get have g: "freeEntryId S x"
      "case entryNamed S x of None \<Rightarrow> True | Some e \<Rightarrow> entry_visibility e = Some ''scheduled''"
      "both \<longrightarrow> entryNamed S (schedule_entryId s) = None"
      by simp_all
    have free: "\<forall>e. schedule_entryId s' = Some e \<longrightarrow>
        (case map_of (entries S) e of
           None \<Rightarrow> e < entryIdCounter S
         | Some b \<Rightarrow> \<not> named (schedules S) e \<and> entry_visibility b = Some ''scheduled'')"
      using g(1,2) x(2)
      by (auto simp: freeEntryId_def entryNamed_def getEntryById_def Map_get_def named_find
          split: option.splits)
    have leave: "both \<longrightarrow>
        (\<forall>e. schedule_entryId s = Some e \<longrightarrow> map_of (entries S) e = None)"
      using g(3) by (auto simp: entryNamed_def getEntryById_def Map_get_def)
    from assms(1) Some id free leave show ?thesis by (rule coordinated_move_schedule)
  qed
  with Some show ?thesis by (simp add: snd_updateSchedule s'_def)
qed

subsection \<open>deleteSchedule\<close>

lemma snd_deleteSchedule_absent:
  "map_of (schedules S) i = None \<Longrightarrow> snd (deleteSchedule i S) = S"
  by (simp add: deleteSchedule_def Map_get_def Map_delete_def filter_absent_key)

lemma snd_deleteSchedule_orphan:
  assumes "map_of (schedules S) i = Some s"
    and "(case schedule_entryId s of None \<Rightarrow> None | Some eid \<Rightarrow> map_of (entries S) eid) = None"
  shows "snd (deleteSchedule i S) = S\<lparr>schedules := filter (\<lambda>p. fst p \<noteq> i) (schedules S)\<rparr>"
proof -
  from assms(2) have
    "(case schedule_entryId s of None \<Rightarrow> None | Some eid \<Rightarrow> getEntryById S eid) = None"
    by (cases "schedule_entryId s") (simp_all add: getEntryById_def Map_get_def)
  with assms(1) show ?thesis
    by (simp add: deleteSchedule_def Let_def Map_get_def Map_delete_def)
qed

lemma snd_deleteSchedule_entry:
  assumes "map_of (schedules S) i = Some s" and "schedule_entryId s = Some eid"
    and "map_of (entries S) eid = Some e" and "entry_id e = eid"
  shows "snd (deleteSchedule i S) =
     S\<lparr>entries := Map_set eid (mergeEntry e (visibilityPatch ''private'')) (entries S),
       schedules := filter (\<lambda>p. fst p \<noteq> i) (schedules S)\<rparr>"
  using assms
  by (simp add: deleteSchedule_def Let_def getEntryById_def Map_get_def updateEntry_def
      Map_delete_def)

lemma coordinated_deleteSchedule:
  assumes "coordinated both S"
  shows "coordinated both (snd (deleteSchedule i S))"
proof (cases "map_of (schedules S) i")
  case None
  with assms show ?thesis by (simp add: snd_deleteSchedule_absent)
next
  case (Some s)
  note inv = coordinatedD [OF assms]
  from schedule_at [OF inv(2) Some] have sat: "(i, s) \<in> set (schedules S)" by simp
  have d: "distinct (map fst (schedules S))" using inv(2) by (simp add: schedules_ok_def)
  have de: "distinct (map fst (entries S))" using inv(1) by (simp add: entries_ok_def)
  define ss where "ss = filter (\<lambda>p. fst p \<noteq> i) (schedules S)"
  have sub: "set ss \<subseteq> set (schedules S)" by (auto simp: ss_def)
  have 2: "schedules_ok both ss (scheduleIdCounter S)"
    unfolding ss_def using inv(2) by (rule schedules_ok_filter)
  have 3: "refs_ok ss (entryIdCounter S)"
    using sub _ inv(3) by (rule refs_ok_subset) simp
  have gone: "q = (i, s)" if "q \<in> set (schedules S)" and "fst q = i" for q
    using d that(1) sat by (rule same_key) (simp add: that(2))
  have other: "named ss x = named (schedules S) x" if "schedule_entryId s \<noteq> Some x" for x
  proof
    assume "named ss x"
    then show "named (schedules S) x" using sub by (rule named_subset [rotated])
  next
    assume "named (schedules S) x"
    then obtain q where q: "q \<in> set (schedules S)" "schedule_entryId (snd q) = Some x"
      unfolding named_def by blast
    have "fst q \<noteq> i"
    proof
      assume "fst q = i"
      with gone [OF q(1)] have "q = (i, s)" by simp
      with q(2) that show False by simp
    qed
    with q(1) have "q \<in> set ss" by (simp add: ss_def)
    with q(2) show "named ss x" unfolding named_def by blast
  qed
  show ?thesis
  proof (cases "case schedule_entryId s of None \<Rightarrow> None | Some eid \<Rightarrow> map_of (entries S) eid")
    case None
    have S': "snd (deleteSchedule i S) = S\<lparr>schedules := ss\<rparr>"
      unfolding ss_def using Some None by (rule snd_deleteSchedule_orphan)
    have 4: "single_schedule (entries S) ss"
      using inv(4) sub by (rule single_subset) simp
    have 5: "sync both (entries S) ss"
      unfolding sync_def
    proof
      fix p
      assume p: "p \<in> set (entries S)"
      then have pin: "(fst p, snd p) \<in> set (entries S)" by simp
      from inv(1) p have id: "entry_id (snd p) = fst p" by (simp add: entries_ok_def)
      from key_in [OF pin] have "map_of (entries S) (fst p) \<noteq> None"
        by (simp add: map_of_keys)
      with None have "schedule_entryId s \<noteq> Some (fst p)" by (auto split: option.splits)
      with other id have "named ss (entry_id (snd p)) = named (schedules S) (entry_id (snd p))"
        by simp
      with sync_at [OF inv(5) pin]
      show "(named ss (entry_id (snd p)) \<longrightarrow> entry_visibility (snd p) = Some ''scheduled'') \<and>
          (both \<longrightarrow> entry_visibility (snd p) = Some ''scheduled'' \<longrightarrow>
            named ss (entry_id (snd p)))"
        by simp
    qed
    show ?thesis
      unfolding S' using inv(1) 2 3 4 5 by (simp add: coordinated_def)
  next
    case (Some e)
    then obtain eid where eid: "schedule_entryId s = Some eid" "map_of (entries S) eid = Some e"
      by (auto split: option.splits)
    from entry_at [OF inv(1) eid(2)] have at: "entry_id e = eid" "eid < entryIdCounter S"
      "(eid, e) \<in> set (entries S)" by simp_all
    define e' where "e' = mergeEntry e (visibilityPatch ''private'')"
    have S': "snd (deleteSchedule i S) =
        S\<lparr>entries := Map_set eid e' (entries S), schedules := ss\<rparr>"
      unfolding e'_def ss_def using \<open>map_of (schedules S) i = Some s\<close> eid at(1)
      by (rule snd_deleteSchedule_entry)
    have id: "entry_id e' = eid" and vis: "entry_visibility e' = Some ''private''"
      using visibility_merge [of e "''private''"] at(1) by (simp_all add: e'_def)
    have unnamed: "\<not> named ss eid"
    proof
      assume "named ss eid"
      then obtain q where q: "q \<in> set (schedules S)" "fst q \<noteq> i"
        "schedule_entryId (snd q) = Some eid" unfolding named_def by (auto simp: ss_def)
      from inv(4) q(1) sat key_in [OF at(3)] q(3) have "q = (i, s)"
        by (rule singleD) (simp add: eid(1))
      with q(2) show False by simp
    qed
    have 1: "entries_ok (Map_set eid e' (entries S)) (entryIdCounter S)"
      using inv(1) id at(2) by (rule entries_ok_Map_set) simp
    have "single_schedule (entries S) ss"
      using inv(4) sub by (rule single_subset) simp
    then have 4: "single_schedule (Map_set eid e' (entries S)) ss"
      by (simp add: single_keys [OF keys_replace [OF at(3)]])
    have 5: "sync both (Map_set eid e' (entries S)) ss"
      unfolding sync_def set_Map_set [OF de]
    proof
      fix p
      assume "p \<in> insert (eid, e') {p \<in> set (entries S). fst p \<noteq> eid}"
      then show "(named ss (entry_id (snd p)) \<longrightarrow>
            entry_visibility (snd p) = Some ''scheduled'') \<and>
          (both \<longrightarrow> entry_visibility (snd p) = Some ''scheduled'' \<longrightarrow>
            named ss (entry_id (snd p)))"
      proof
        assume "p = (eid, e')"
        with unnamed id vis show ?thesis by simp
      next
        assume "p \<in> {p \<in> set (entries S). fst p \<noteq> eid}"
        then have p: "p \<in> set (entries S)" "fst p \<noteq> eid" by simp_all
        then have pin: "(fst p, snd p) \<in> set (entries S)" by simp
        from inv(1) p have "entry_id (snd p) \<noteq> eid" by (simp add: entries_ok_def)
        with other eid(1) have
          "named ss (entry_id (snd p)) = named (schedules S) (entry_id (snd p))"
          by simp
        with sync_at [OF inv(5) pin] show ?thesis by simp
      qed
    qed
    show ?thesis
      unfolding S' using 1 2 3 4 5 by (simp add: coordinated_def)
  qed
qed

subsection \<open>Every admissible call\<close>

lemma coordinated_frame:
  "entries S' = entries S \<Longrightarrow> schedules S' = schedules S \<Longrightarrow>
   entryIdCounter S' = entryIdCounter S \<Longrightarrow> scheduleIdCounter S' = scheduleIdCounter S \<Longrightarrow>
     coordinated both S' = coordinated both S"
  by (simp add: coordinated_def)

lemma coordinated_perform:
  assumes "coordinated both S" and "admissible both c S"
  shows "coordinated both (perform c S)"
proof (cases c)
  case (CreateUser ins)
  have "coordinated both (snd (createUser ins S)) = coordinated both S"
    by (rule coordinated_frame) (simp_all add: createUser_def Let_def)
  with assms(1) CreateUser show ?thesis by simp
next
  case (CreateCategory ins)
  have "coordinated both (snd (createCategory ins S)) = coordinated both S"
    by (rule coordinated_frame) (simp_all add: createCategory_def Let_def)
  with assms(1) CreateCategory show ?thesis by simp
next
  case (DeleteCategory i)
  have "coordinated both (snd (deleteCategory i S)) = coordinated both S"
    by (rule coordinated_frame) (simp_all add: deleteCategory_def Let_def split: prod.splits)
  with assms(1) DeleteCategory show ?thesis by simp
next
  case (CreateEntry now ins)
  with assms show ?thesis by (simp add: coordinated_createEntry)
next
  case (UpdateEntry i p)
  with assms show ?thesis by (simp only: perform.simps coordinated_updateEntry)
next
  case (DeleteEntry i)
  with assms show ?thesis by (simp add: coordinated_deleteEntry)
next
  case (CreateContact ins)
  have "coordinated both (snd (createContact ins S)) = coordinated both S"
    by (rule coordinated_frame) (simp_all add: createContact_def Let_def)
  with assms(1) CreateContact show ?thesis by simp
next
  case (UpdateContact i p)
  have "coordinated both (snd (updateContact i p S)) = coordinated both S"
    by (rule coordinated_frame)
      (simp_all add: updateContact_def Let_def split: option.splits)
  with assms(1) UpdateContact show ?thesis by simp
next
  case (DeleteContact i)
  have "coordinated both (snd (deleteContact i S)) = coordinated both S"
    by (rule coordinated_frame) (simp_all add: deleteContact_def Let_def split: prod.splits)
  with assms(1) DeleteContact show ?thesis by simp
next
  case (CreateSchedule now ins)
  with assms show ?thesis by (simp only: perform.simps coordinated_createSchedule)
next
  case (UpdateSchedule i p)
  with assms show ?thesis by (simp only: perform.simps coordinated_updateSchedule)
next
  case (DeleteSchedule i)
  with assms show ?thesis by (simp add: coordinated_deleteSchedule)
qed

lemma coordinated_run:
  "coordinated both S \<Longrightarrow> admissibleRun both cs S \<Longrightarrow> coordinated both (run cs S)"
  by (induction cs arbitrary: S) (simp_all add: coordinated_perform)

lemma coordinated_new: "coordinated both newMemStorage"
proof -
  have "entries newMemStorage = []" and "schedules newMemStorage = []" by code_simp+
  then show ?thesis
    by (simp add: coordinated_def entries_ok_def schedules_ok_def refs_ok_def sync_def
        single_schedule_def)
qed

text \<open>
  Claim C1, amended. In every store reached from the seeded store by calls that are
  admissible with \<open>both\<close> set, an entry has visibility "scheduled" if and only if some
  stored schedule has the entry's id as its \<open>entryId\<close>.
\<close>

theorem admissible_visibility_sync:
  "admissibleRun True cs newMemStorage \<Longrightarrow> visibility_sync (run cs newMemStorage)"
proof -
  assume "admissibleRun True cs newMemStorage"
  with coordinated_new have "coordinated True (run cs newMemStorage)" by (rule coordinated_run)
  then show ?thesis by (simp add: visibility_sync_iff coordinated_def)
qed

theorem admissible_visibility_sync_witness:
  "admissibleRun True sampleRun newMemStorage \<and>
   map (\<lambda>e. (entry_id e, entry_visibility e)) (Map_values (entries (run sampleRun newMemStorage))) =
     [(1, Some ''scheduled''), (2, Some ''private'')] \<and>
   map (\<lambda>p. (fst p, schedule_entryId (snd p))) (schedules (run sampleRun newMemStorage)) =
     [(1, Some 1), (3, None)] \<and>
   visibility_sync (run sampleRun newMemStorage)"
proof -
  have a: "admissibleRun True sampleRun newMemStorage" by code_simp
  have b: "map (\<lambda>e. (entry_id e, entry_visibility e))
      (Map_values (entries (run sampleRun newMemStorage))) =
     [(1, Some ''scheduled''), (2, Some ''private'')]" by code_simp
  have c: "map (\<lambda>p. (fst p, schedule_entryId (snd p))) (schedules (run sampleRun newMemStorage)) =
     [(1, Some 1), (3, None)]" by code_simp
  from a b c admissible_visibility_sync [OF a] show ?thesis by blast
qed

text \<open>The claim as first stated, for every sequence of calls: \<open>createEntry\<close> stores the
  visibility it is given, so one call yields a scheduled entry with no schedule.\<close>

theorem visibility_sync_counterexample:
  "\<not> visibility_sync
       (run [CreateEntry 0 (sampleEntry\<lparr> ie_visibility := Some ''scheduled'' \<rparr>)] newMemStorage)"
  by code_simp

subsection \<open>Scheduled entries in the combined view\<close>

lemma entry_visibility_viewOf: "entry_visibility (viewOf S e) = entry_visibility e"
  by (simp add: viewOf_def Let_def entry.extend_def)

lemma schedule_viewOf_None:
  "(schedule (viewOf S e) = None) = (getSchedulesByEntryId S (entry_id e) = None)"
  by (simp add: viewOf_def Let_def entry.extend_def entryWithSchedule.fields_def
      split: option.splits)

lemma viewed_scheduled:
  assumes "coordinated both S" and "e \<in> set (Map_values (entries S))"
    and "schedule (viewOf S e) \<noteq> None"
  shows "entry_visibility e = Some ''scheduled''"
proof -
  from assms(2) obtain k where k: "(k, e) \<in> set (entries S)"
    by (auto simp: Map_values_def)
  from assms(3) have "named (schedules S) (entry_id e)"
    by (simp add: schedule_viewOf_None named_find)
  with sync_at [OF coordinatedD(5) [OF assms(1)] k] show ?thesis by simp
qed

text \<open>
  Claim C5, amended. In every store and for every user id, each record of
  \<open>getScheduledEntries\<close> has an embedded schedule, and each record of
  \<open>getEntriesWithSchedules\<close> that \<open>getScheduledEntries\<close> does not return has none. In
  every store reached from the seeded store by calls that are admissible without
  \<open>both\<close>, each record of \<open>getScheduledEntries\<close> has visibility "scheduled" as well.
  (Such calls may create an entry as "scheduled", mark any entry "scheduled", patch
  the \<open>id\<close> of a schedule and take a schedule away from its entry.)
\<close>

theorem scheduled_entries_agree:
  "(\<forall>r \<in> set (getScheduledEntries S uid). schedule r \<noteq> None) \<and>
   (\<forall>r \<in> set (getEntriesWithSchedules S uid).
      r \<notin> set (getScheduledEntries S uid) \<longrightarrow> schedule r = None) \<and>
   (admissibleRun False cs newMemStorage \<longrightarrow>
      (\<forall>r \<in> set (getScheduledEntries (run cs newMemStorage) uid).
         entry_visibility r = Some ''scheduled''))"
proof (intro conjI impI ballI)
  fix r
  assume "r \<in> set (getScheduledEntries S uid)"
  then show "schedule r \<noteq> None" by (simp add: getScheduledEntries_def)
next
  fix r
  assume "r \<in> set (getEntriesWithSchedules S uid)" and "r \<notin> set (getScheduledEntries S uid)"
  then show "schedule r = None" by (simp add: getScheduledEntries_def)
next
  fix r
  define T where "T = run cs newMemStorage"
  assume "admissibleRun False cs newMemStorage"
  with coordinated_new have co: "coordinated False T" unfolding T_def by (rule coordinated_run)
  assume "r \<in> set (getScheduledEntries (run cs newMemStorage) uid)"
  then obtain e where e: "e \<in> set (Map_values (entries T))" "r = viewOf T e"
    and r: "schedule r \<noteq> None"
    by (auto simp: T_def getScheduledEntries_def getEntriesWithSchedules_def getEntries_def)
  from viewed_scheduled [OF co e(1)] e(2) r show "entry_visibility r = Some ''scheduled''"
    by (simp add: entry_visibility_viewOf)
qed

theorem scheduled_entries_agree_witness:
  "admissibleRun False lenientRun newMemStorage \<and>
   \<not> admissibleRun True lenientRun newMemStorage \<and>
   map (\<lambda>r. (entry_id r, entry_visibility r, map_option schedule_id (schedule r)))
     (getEntriesWithSchedules (run lenientRun newMemStorage) 1) =
     [(1, Some ''scheduled'', Some 9), (2, Some ''scheduled'', None),
      (3, Some ''private'', None)] \<and>
   map entry_id (getScheduledEntries (run lenientRun newMemStorage) 1) = [1] \<and>
   entry_visibility (hd (getScheduledEntries (run lenientRun newMemStorage) 1)) =
     Some ''scheduled'' \<and>
   schedule (hd (getScheduledEntries (run lenientRun newMemStorage) 1)) \<noteq> None \<and>
   schedule (last (getEntriesWithSchedules (run lenientRun newMemStorage) 1)) = None"
proof -
  define S where "S = run lenientRun newMemStorage"
  define r where "r = hd (getScheduledEntries S 1)"
  define r' where "r' = last (getEntriesWithSchedules S 1)"
  have a: "admissibleRun False lenientRun newMemStorage" by code_simp
  have a': "\<not> admissibleRun True lenientRun newMemStorage" by code_simp
  have b: "map entry_id (getScheduledEntries S 1) = [1]"
    unfolding S_def by code_simp
  have c: "map (\<lambda>r. (entry_id r, entry_visibility r, map_option schedule_id (schedule r)))
      (getEntriesWithSchedules S 1) =
     [(1, Some ''scheduled'', Some 9), (2, Some ''scheduled'', None),
      (3, Some ''private'', None)]"
    unfolding S_def by code_simp
  from b have "getScheduledEntries S 1 \<noteq> []" by auto
  then have r: "r \<in> set (getScheduledEntries S 1)" unfolding r_def by simp
  from c have ne: "getEntriesWithSchedules S 1 \<noteq> []" by auto
  then have r': "r' \<in> set (getEntriesWithSchedules S 1)" unfolding r'_def by simp
  have "entry_id r' = fst (last
      (map (\<lambda>r. (entry_id r, entry_visibility r, map_option schedule_id (schedule r)))
        (getEntriesWithSchedules S 1)))"
    unfolding r'_def using ne by (simp add: last_map)
  with c have three: "entry_id r' = 3" by simp
  have out: "r' \<notin> set (getScheduledEntries S 1)"
  proof
    assume "r' \<in> set (getScheduledEntries S 1)"
    then have "entry_id r' \<in> set (map entry_id (getScheduledEntries S 1))" by simp
    with b three show False by simp
  qed
  from scheduled_entries_agree [of S 1 lenientRun] a r r' out
  have "entry_visibility r = Some ''scheduled'' \<and> schedule r \<noteq> None \<and> schedule r' = None"
    unfolding S_def by blast
  with a a' b c show ?thesis unfolding S_def r_def r'_def by blast
qed

text \<open>The claim as first stated, for every sequence of calls: with two schedules for one
  entry, deleting the first sets the entry back to "private" while the second schedule
  still puts it among the scheduled entries.\<close>

theorem scheduled_entries_agree_counterexample:
  "map entry_visibility (getScheduledEntries (run doubleRun newMemStorage) 1) =
     [Some ''private'']"
  by code_simp

subsection \<open>Each condition on the calls is needed\<close>

text \<open>A call that breaks one condition of \<open>admissible\<close>, among calls that keep them all,
  reaches a store in which visibility and schedules are out of step: an entry created
  as "scheduled"; the client's edit, which sends visibility "private", on an entry
  that has a schedule; a patch of "scheduled" on an entry that has none; a patch of an
  entry's \<open>id\<close>; a schedule for an entry id that is still to be handed out, or for an
  entry that has a schedule already; a schedule moved to an entry that is not
  "scheduled", or taken away from its entry; a patch of \<open>id\<close> on a schedule.\<close>

lemma bypass_createEntry_scheduled:
  "\<not> admissible True (CreateEntry 0 (sampleEntry\<lparr> ie_visibility := Some ''scheduled'' \<rparr>))
       newMemStorage \<and>
   \<not> visibility_sync
       (run [CreateEntry 0 (sampleEntry\<lparr> ie_visibility := Some ''scheduled'' \<rparr>)] newMemStorage)"
  by code_simp

lemma bypass_updateEntry_visibility:
  "admissibleRun True [CreateEntry 0 sampleEntry, CreateSchedule 5 (sampleSchedule 1)]
     newMemStorage \<and>
   \<not> admissible False (UpdateEntry 1 clientEdit) scheduledStore \<and>
   map entry_visibility (getScheduledEntries (run [UpdateEntry 1 clientEdit] scheduledStore) 1) =
     [Some ''private''] \<and>
   \<not> visibility_sync (run [UpdateEntry 1 clientEdit] scheduledStore)"
  by code_simp

lemma bypass_updateEntry_visibility_early:
  "\<not> admissible True
       (UpdateEntry 1 (noEntryPatch\<lparr> pe_visibility := Some (Some ''scheduled'') \<rparr>)) entryStore \<and>
   \<not> visibility_sync (run
     [UpdateEntry 1 (noEntryPatch\<lparr> pe_visibility := Some (Some ''scheduled'') \<rparr>)] entryStore)"
  by code_simp

lemma bypass_updateEntry_id:
  "\<not> admissible False (UpdateEntry 1 (noEntryPatch\<lparr> pe_id := Some 2 \<rparr>))
       (run [CreateEntry 0 sampleEntry, CreateEntry 1 sampleEntry] newMemStorage) \<and>
   admissible True (CreateSchedule 5 (sampleSchedule 2))
     (run [CreateEntry 0 sampleEntry, CreateEntry 1 sampleEntry,
           UpdateEntry 1 (noEntryPatch\<lparr> pe_id := Some 2 \<rparr>)] newMemStorage) \<and>
   map (\<lambda>r. (entry_id r, entry_visibility r))
     (getScheduledEntries (run
       [CreateEntry 0 sampleEntry, CreateEntry 1 sampleEntry,
        UpdateEntry 1 (noEntryPatch\<lparr> pe_id := Some 2 \<rparr>),
        CreateSchedule 5 (sampleSchedule 2)] newMemStorage) 1) =
     [(2, Some ''private''), (2, Some ''scheduled'')]"
  by code_simp

lemma bypass_createSchedule_early:
  "\<not> admissible False (CreateSchedule 5 (sampleSchedule 1)) newMemStorage \<and>
   admissible True (CreateEntry 0 sampleEntry)
     (run [CreateSchedule 5 (sampleSchedule 1)] newMemStorage) \<and>
   map entry_visibility (getScheduledEntries (run
     [CreateSchedule 5 (sampleSchedule 1), CreateEntry 0 sampleEntry] newMemStorage) 1) =
     [Some ''private'']"
  by code_simp

lemma bypass_createSchedule_twice:
  "\<not> admissible False (CreateSchedule 6 (sampleSchedule 1)) scheduledStore \<and>
   map entry_visibility (getScheduledEntries (run doubleRun newMemStorage) 1) =
     [Some ''private'']"
  by code_simp

lemma bypass_updateSchedule_entryId:
  "\<not> admissible False (UpdateSchedule 1 (noSchedulePatch\<lparr> ps_entryId := Some (Some 2) \<rparr>))
       (run [CreateEntry 0 sampleEntry, CreateEntry 1 sampleEntry,
             CreateSchedule 5 (sampleSchedule 1)] newMemStorage) \<and>
   map (\<lambda>r. (entry_id r, entry_visibility r)) (getScheduledEntries (run
     [CreateEntry 0 sampleEntry, CreateEntry 1 sampleEntry,
      CreateSchedule 5 (sampleSchedule 1),
      UpdateSchedule 1 (noSchedulePatch\<lparr> ps_entryId := Some (Some 2) \<rparr>)]
     newMemStorage) 1) = [(2, Some ''private'')]"
  by code_simp

lemma bypass_updateSchedule_release:
  "admissible False (UpdateSchedule 1 (noSchedulePatch\<lparr> ps_entryId := Some None \<rparr>))
     scheduledStore \<and>
   \<not> admissible True (UpdateSchedule 1 (noSchedulePatch\<lparr> ps_entryId := Some None \<rparr>))
       scheduledStore \<and>
   \<not> visibility_sync
       (run [UpdateSchedule 1 (noSchedulePatch\<lparr> ps_entryId := Some None \<rparr>)] scheduledStore)"
  by code_simp

lemma bypass_updateSchedule_id:
  "admissibleRun True twoScheduledRun newMemStorage \<and>
   \<not> admissible True (UpdateSchedule 1 (noSchedulePatch\<lparr> ps_id := Some 2 \<rparr>))
       (run twoScheduledRun newMemStorage) \<and>
   admissible True (DeleteEntry 1) (run crossedRun newMemStorage) \<and>
   \<not> visibility_sync (run (crossedRun @ [DeleteEntry 1]) newMemStorage)"
  by code_simp

end
